theory Spec2Isabelle
  imports Main "HOL-Library.Word"
begin

section \<open>The outside world: browser calls, their answers, and the call history\<close>

text \<open>
  The scraper drives a Playwright browser. Every call into the browser is recorded in a
  history (the list of calls made so far, oldest first), and the answer of the browser to
  a call is an arbitrary function of the history before the call: this covers every
  deterministic page, and the history tells afterwards how often something was done.
  A call either returns or raises; Python exceptions are values of \<open>exn\<close>.
\<close>

type_synonym handle = nat
type_synonym elem = nat

datatype exn = KeyError string | Error string | IntegrityError string | ValueError string

fun str_exn :: "exn \<Rightarrow> string" where
  "str_exn (KeyError k) = [CHR 0x27] @ k @ [CHR 0x27]"
| "str_exn (Error m) = m"
| "str_exn (IntegrityError m) = m"
| "str_exn (ValueError m) = m"

datatype call =
    PlaywrightStart
  | ChromiumLaunch bool
  | NewContext handle
  | NewPage handle
  | SetDefaultTimeout nat
  | PageClose handle
  | ContextClose handle
  | BrowserClose handle
  | PlaywrightStop handle
  | Goto string string nat
  | WaitForTimeout nat
  | Evaluate string
  | WaitForSelector string "string option" nat
  | QuerySelectorAll string
  | QuerySelector string
  | ElemQuerySelector elem string
  | InnerText elem
  | GetAttribute elem string

type_synonym hist = "call list"

record env =
  playwright_start :: "hist \<Rightarrow> exn + handle"
  chromium_launch :: "hist \<Rightarrow> bool \<Rightarrow> exn + handle"
  new_context :: "hist \<Rightarrow> handle \<Rightarrow> exn + handle"
  new_page :: "hist \<Rightarrow> handle \<Rightarrow> exn + handle"
  set_default_timeout :: "hist \<Rightarrow> nat \<Rightarrow> exn + unit"
  page_close :: "hist \<Rightarrow> handle \<Rightarrow> exn + unit"
  context_close :: "hist \<Rightarrow> handle \<Rightarrow> exn + unit"
  browser_close :: "hist \<Rightarrow> handle \<Rightarrow> exn + unit"
  playwright_stop :: "hist \<Rightarrow> handle \<Rightarrow> exn + unit"
  goto :: "hist \<Rightarrow> string \<Rightarrow> string \<Rightarrow> nat \<Rightarrow> exn + unit"
  wait_for_timeout :: "hist \<Rightarrow> nat \<Rightarrow> exn + unit"
  evaluate :: "hist \<Rightarrow> string \<Rightarrow> exn + unit"
  wait_for_selector :: "hist \<Rightarrow> string \<Rightarrow> string option \<Rightarrow> nat \<Rightarrow> exn + unit"
  query_selector_all :: "hist \<Rightarrow> string \<Rightarrow> exn + elem list"
  query_selector :: "hist \<Rightarrow> string \<Rightarrow> exn + elem option"
  elem_query_selector :: "hist \<Rightarrow> elem \<Rightarrow> string \<Rightarrow> exn + elem option"
  inner_text :: "hist \<Rightarrow> elem \<Rightarrow> exn + string"
  get_attribute :: "hist \<Rightarrow> elem \<Rightarrow> string \<Rightarrow> exn + string option"
  sha256 :: "string \<Rightarrow> 256 word"
  urljoin :: "string \<Rightarrow> string \<Rightarrow> exn + string"
  strip :: "string \<Rightarrow> string"

text \<open>The settings of \<open>config/settings.py\<close> that the scraper reads.\<close>

record settings =
  scraper_headless :: bool
  scraper_scroll_pause :: nat
  scraper_timeout :: nat

subsection \<open>Programs: a result or an exception, and the history afterwards\<close>

type_synonym 'a prog = "hist \<Rightarrow> (exn + 'a) \<times> hist"

definition return :: "'a \<Rightarrow> 'a prog" where
  "return x = (\<lambda>h. (Inr x, h))"

definition raise :: "exn \<Rightarrow> 'a prog" where
  "raise e = (\<lambda>h. (Inl e, h))"

definition bind :: "'a prog \<Rightarrow> ('a \<Rightarrow> 'b prog) \<Rightarrow> 'b prog" where
  "bind m f = (\<lambda>h. case m h of (Inl e, h') \<Rightarrow> (Inl e, h') | (Inr x, h') \<Rightarrow> f x h')"

text \<open>\<open>try: m except Exception as e: handler e\<close>\<close>

definition try_except :: "'a prog \<Rightarrow> (exn \<Rightarrow> 'a prog) \<Rightarrow> 'a prog" where
  "try_except m handler = (\<lambda>h. case m h of (Inl e, h') \<Rightarrow> handler e h' | (Inr x, h') \<Rightarrow> (Inr x, h'))"

text \<open>One call into the browser: the answer is read off the history before the call.\<close>

definition perform :: "call \<Rightarrow> (hist \<Rightarrow> exn + 'a) \<Rightarrow> 'a prog" where
  "perform c answer = (\<lambda>h. (answer h, h @ [c]))"

section \<open>The render session: \<open>BrowserManager\<close> of \<open>src/scraper/browser.py\<close>\<close>

record manager =
  m_playwright :: "handle option"
  m_browser :: "handle option"
  m_context :: "handle option"
  m_page :: "handle option"

definition new_manager :: manager where
  "new_manager = \<lparr>m_playwright = None, m_browser = None, m_context = None, m_page = None\<rparr>"

text \<open>
  \<open>start\<close> assigns the four fields one after the other; when a step raises, the fields
  assigned before it keep their handles. The result carries the manager as it is when
  \<open>start\<close> returns or raises.
\<close>

definition start :: "env \<Rightarrow> settings \<Rightarrow> manager \<Rightarrow> hist \<Rightarrow> (exn option \<times> manager) \<times> hist" where
  "start ev st m h =
    (case perform PlaywrightStart (playwright_start ev) h of
      (Inl e, h1) \<Rightarrow> ((Some e, m), h1)
    | (Inr pw, h1) \<Rightarrow>
       (let m1 = m\<lparr>m_playwright := Some pw\<rparr> in
        case perform (ChromiumLaunch (scraper_headless st))
               (\<lambda>h. chromium_launch ev h (scraper_headless st)) h1 of
          (Inl e, h2) \<Rightarrow> ((Some e, m1), h2)
        | (Inr br, h2) \<Rightarrow>
           (let m2 = m1\<lparr>m_browser := Some br\<rparr> in
            case perform (NewContext br) (\<lambda>h. new_context ev h br) h2 of
              (Inl e, h3) \<Rightarrow> ((Some e, m2), h3)
            | (Inr cx, h3) \<Rightarrow>
               (let m3 = m2\<lparr>m_context := Some cx\<rparr> in
                case perform (NewPage cx) (\<lambda>h. new_page ev h cx) h3 of
                  (Inl e, h4) \<Rightarrow> ((Some e, m3), h4)
                | (Inr pg, h4) \<Rightarrow>
                   (let m4 = m3\<lparr>m_page := Some pg\<rparr> in
                    case perform (SetDefaultTimeout (scraper_timeout st))
                           (\<lambda>h. set_default_timeout ev h (scraper_timeout st)) h4 of
                      (Inl e, h5) \<Rightarrow> ((Some e, m4), h5)
                    | (Inr u, h5) \<Rightarrow> ((None, m4), h5))))))"

text \<open>\<open>if self.x: await self.x.close()\<close>: an absent handle is skipped.\<close>

definition close_if :: "handle option \<Rightarrow> (handle \<Rightarrow> call) \<Rightarrow> (hist \<Rightarrow> handle \<Rightarrow> exn + unit) \<Rightarrow> unit prog" where
  "close_if slot c answer =
    (case slot of None \<Rightarrow> return () | Some x \<Rightarrow> perform (c x) (\<lambda>h. answer h x))"

definition close :: "env \<Rightarrow> manager \<Rightarrow> unit prog" where
  "close ev m =
    bind (close_if (m_page m) PageClose (page_close ev)) (\<lambda>_.
    bind (close_if (m_context m) ContextClose (context_close ev)) (\<lambda>_.
    bind (close_if (m_browser m) BrowserClose (browser_close ev)) (\<lambda>_.
    close_if (m_playwright m) PlaywrightStop (playwright_stop ev))))"

text \<open>The handles a manager holds, as the release calls in reverse order of acquisition.\<close>

definition held_releases :: "manager \<Rightarrow> call list" where
  "held_releases m =
    map PageClose (case m_page m of None \<Rightarrow> [] | Some x \<Rightarrow> [x]) @
    map ContextClose (case m_context m of None \<Rightarrow> [] | Some x \<Rightarrow> [x]) @
    map BrowserClose (case m_browser m of None \<Rightarrow> [] | Some x \<Rightarrow> [x]) @
    map PlaywrightStop (case m_playwright m of None \<Rightarrow> [] | Some x \<Rightarrow> [x])"

text \<open>The answer of the browser to a release call.\<close>

fun release_answer :: "env \<Rightarrow> hist \<Rightarrow> call \<Rightarrow> exn + unit" where
  "release_answer ev h (PageClose x) = page_close ev h x"
| "release_answer ev h (ContextClose x) = context_close ev h x"
| "release_answer ev h (BrowserClose x) = browser_close ev h x"
| "release_answer ev h (PlaywrightStop x) = playwright_stop ev h x"
| "release_answer ev h _ = Inr ()"

definition releases_return :: "env \<Rightarrow> manager \<Rightarrow> bool" where
  "releases_return ev m = (\<forall>h. \<forall>c \<in> set (held_releases m). release_answer ev h c = Inr ())"

text \<open>
  \<open>scroll_to_bottom(page, pause=None)\<close>: \<open>pause or settings.scraper_scroll_pause\<close> takes the
  setting when no pause (or the pause 0) is given.
\<close>

definition scroll_js :: string where
  "scroll_js = ''window.scrollTo(0, document.body.scrollHeight)''"

definition scroll_to_bottom :: "env \<Rightarrow> settings \<Rightarrow> nat option \<Rightarrow> unit prog" where
  "scroll_to_bottom ev st pause =
    (let p = (case pause of None \<Rightarrow> scraper_scroll_pause st
                | Some q \<Rightarrow> if q = 0 then scraper_scroll_pause st else q)
     in bind (perform (Evaluate scroll_js) (\<lambda>h. evaluate ev h scroll_js)) (\<lambda>_.
        perform (WaitForTimeout (p * 1000)) (\<lambda>h. wait_for_timeout ev h (p * 1000))))"

text \<open>
  The \<open>while\<close> loop of \<open>infinite_scroll\<close>, with its two variables. A raise of
  \<open>scroll_to_bottom\<close> is outside the \<open>try\<close> and leaves the function; a raise of the count
  is caught and breaks the loop. The loop hands back \<open>previous_count\<close> and, for the
  theorems, \<open>scroll_count\<close> as it stands when the loop is left.
\<close>

function infinite_scroll_loop ::
  "env \<Rightarrow> settings \<Rightarrow> string \<Rightarrow> nat \<Rightarrow> nat \<Rightarrow> nat \<Rightarrow> hist \<Rightarrow> (exn + nat \<times> nat) \<times> hist" where
  "infinite_scroll_loop ev st selector max_scrolls previous_count scroll_count h =
    (if scroll_count < max_scrolls then
       (case scroll_to_bottom ev st None h of
          (Inl e, h1) \<Rightarrow> (Inl e, h1)
        | (Inr u, h1) \<Rightarrow>
           (case perform (QuerySelectorAll selector) (\<lambda>h. query_selector_all ev h selector) h1 of
              (Inl e, h2) \<Rightarrow> (Inr (previous_count, scroll_count), h2)
            | (Inr elements, h2) \<Rightarrow>
               (if length elements = previous_count
                then (Inr (previous_count, scroll_count), h2)
                else infinite_scroll_loop ev st selector max_scrolls
                       (length elements) (Suc scroll_count) h2)))
     else (Inr (previous_count, scroll_count), h))"
  by pat_completeness auto
termination
  by (relation "measure (\<lambda>(ev, st, selector, max_scrolls, previous_count, scroll_count, h).
                  max_scrolls - scroll_count)") auto

declare infinite_scroll_loop.simps [simp del]

definition infinite_scroll :: "env \<Rightarrow> settings \<Rightarrow> string \<Rightarrow> nat \<Rightarrow> nat prog" where
  "infinite_scroll ev st selector max_scrolls =
    bind (infinite_scroll_loop ev st selector max_scrolls 0 0) (\<lambda>(previous_count, scroll_count).
    return previous_count)"

text \<open>What the history shows of a run of \<open>infinite_scroll\<close>.\<close>

definition scrolls_performed :: "hist \<Rightarrow> nat" where
  "scrolls_performed h = length (filter (\<lambda>c. c = Evaluate scroll_js) h)"

definition counts_taken :: "string \<Rightarrow> hist \<Rightarrow> nat" where
  "counts_taken selector h = length (filter (\<lambda>c. c = QuerySelectorAll selector) h)"

text \<open>
  A page whose successive counts under \<open>selector\<close>, from the history \<open>h0\<close> on, are the
  numbers of the list \<open>cs\<close>, and on which scrolling and pausing return.
\<close>

definition count_sequence :: "env \<Rightarrow> string \<Rightarrow> hist \<Rightarrow> nat list \<Rightarrow> bool" where
  "count_sequence ev selector h0 cs =
    ((\<forall>h. evaluate ev h scroll_js = Inr ()) \<and>
     (\<forall>h ms. wait_for_timeout ev h ms = Inr ()) \<and>
     (\<forall>t. counts_taken selector t < length cs \<longrightarrow>
        (\<exists>es. query_selector_all ev (h0 @ t) selector = Inr es \<and>
              length es = cs ! counts_taken selector t)))"

text \<open>The calls of one turn of the scroll loop that gets as far as the count.\<close>

definition iteration_calls :: "settings \<Rightarrow> string \<Rightarrow> call list" where
  "iteration_calls st sel =
    [Evaluate scroll_js, WaitForTimeout (scraper_scroll_pause st * 1000), QuerySelectorAll sel]"

section \<open>Strings, as Python treats them\<close>

definition startswith :: "string \<Rightarrow> string \<Rightarrow> bool" where
  "startswith s p = (take (length p) s = p)"

text \<open>
  \<open>str.strip\<close> removes the leading and trailing characters that Unicode classifies as
  whitespace. It is built into Python and enters as the parameter \<open>strip\<close> of the
  environment. On text whose leading and trailing whitespace is ASCII it is the function
  below, which the example pages use.
\<close>

definition is_ascii_space :: "char \<Rightarrow> bool" where
  "is_ascii_space c = (c \<in> set [CHR 0x09, CHR 0x0A, CHR 0x0B, CHR 0x0C, CHR 0x0D,
                                  CHR 0x1C, CHR 0x1D, CHR 0x1E, CHR 0x1F, CHR 0x20])"

definition ascii_strip :: "string \<Rightarrow> string" where
  "ascii_strip s = rev (dropWhile is_ascii_space (rev (dropWhile is_ascii_space s)))"

definition replace_space_plus :: "string \<Rightarrow> string" where
  "replace_space_plus s = map (\<lambda>c. if c = CHR '' '' then CHR ''+'' else c) s"

type_synonym selectors = "string \<rightharpoonup> string"

text \<open>\<open>selectors[key]\<close> raises \<open>KeyError\<close> on a missing key.\<close>

definition lookup :: "selectors \<Rightarrow> string \<Rightarrow> string prog" where
  "lookup sels k = (case sels k of None \<Rightarrow> raise (KeyError k) | Some v \<Rightarrow> return v)"

text \<open>\<open>key in selectors and selectors[key]\<close>: present and not the empty string.\<close>

definition configured :: "selectors \<Rightarrow> string \<Rightarrow> string option" where
  "configured sels k = (case sels k of None \<Rightarrow> None | Some v \<Rightarrow> if v = [] then None else Some v)"

section \<open>The records of \<open>src/storage/models.py\<close>\<close>

record company =
  c_id :: nat
  c_name :: string
  careers_url :: string
  c_selectors :: selectors

record job_discovered =
  url :: string
  title :: string
  location :: "string option"
  team :: "string option"
  url_hash :: string
  search_category :: "string option"

record job =
  job_id :: "nat option"
  company_id :: nat
  job_url :: string
  job_url_hash :: string
  job_title :: string
  job_team :: "string option"
  job_location :: "string option"
  employment_type :: "string option"
  experience_level :: "string option"
  raw_description :: "string option"
  processed :: bool

section \<open>The fingerprint: \<open>generate_url_hash\<close> of \<open>src/storage/database.py\<close>\<close>

text \<open>
  \<open>hashlib.sha256(url.encode()).hexdigest()\<close>. SHA-256 itself is library code: it is the
  parameter \<open>sha\<close>, a function from byte strings to 256-bit digests. The hexadecimal digest
  is the 64 lower-case digits of the digest, most significant first. A \<open>string\<close> here is
  the byte string of the URL.
\<close>

definition hex_digit :: "nat \<Rightarrow> char" where
  "hex_digit d = ''0123456789abcdef'' ! d"

fun hex_of_nat :: "nat \<Rightarrow> nat \<Rightarrow> string" where
  "hex_of_nat 0 x = []"
| "hex_of_nat (Suc n) x = hex_of_nat n (x div 16) @ [hex_digit (x mod 16)]"

definition hexdigest :: "256 word \<Rightarrow> string" where
  "hexdigest w = hex_of_nat 64 (unat w)"

definition generate_url_hash :: "(string \<Rightarrow> 256 word) \<Rightarrow> string \<Rightarrow> string" where
  "generate_url_hash sha u = hexdigest (sha u)"

section \<open>Listing discovery: \<open>src/scraper/discovery.py\<close>\<close>

text \<open>
  The normalisation of a card's link in \<open>extract_job_from_card\<close>: a link that is present,
  not empty and does not start with \<open>http\<close> is resolved against the search URL with
  \<open>urljoin\<close> (library code, a parameter), which raises \<open>ValueError\<close> on a link it cannot
  parse; any other link is kept as it is.
\<close>

definition normalize_url :: "(string \<Rightarrow> string \<Rightarrow> exn + string) \<Rightarrow> string \<Rightarrow> string \<Rightarrow> exn + string" where
  "normalize_url join base_url href =
    (if href \<noteq> [] \<and> \<not> startswith href ''http'' then join base_url href else Inr href)"


text \<open>An optional text field of a card: the stripped inner text, absent when empty.\<close>

definition card_text :: "env \<Rightarrow> elem \<Rightarrow> string \<Rightarrow> string option prog" where
  "card_text ev element sel =
    bind (perform (ElemQuerySelector element sel) (\<lambda>h. elem_query_selector ev h element sel)) (\<lambda>found.
    case found of
      None \<Rightarrow> return None
    | Some el \<Rightarrow>
        bind (perform (InnerText el) (\<lambda>h. inner_text ev h el)) (\<lambda>t.
        return (if t \<noteq> [] then Some (strip ev t) else None)))"

definition card_link :: "env \<Rightarrow> elem \<Rightarrow> string \<Rightarrow> string \<Rightarrow> string option prog" where
  "card_link ev element sel base_url =
    bind (perform (ElemQuerySelector element sel) (\<lambda>h. elem_query_selector ev h element sel)) (\<lambda>found.
    case found of
      None \<Rightarrow> return None
    | Some el \<Rightarrow>
        bind (perform (GetAttribute el ''href'') (\<lambda>h. get_attribute ev h el ''href'')) (\<lambda>href.
        case href of
          None \<Rightarrow> return None
        | Some u \<Rightarrow>
            (case normalize_url (urljoin ev) base_url u of
               Inl e \<Rightarrow> raise e
             | Inr l \<Rightarrow> return (Some l))))"

definition optional_card_text :: "env \<Rightarrow> elem \<Rightarrow> selectors \<Rightarrow> string \<Rightarrow> string option prog" where
  "optional_card_text ev element sels k =
    (case configured sels k of None \<Rightarrow> return None | Some sel \<Rightarrow> card_text ev element sel)"

text \<open>A text counts as missing when it is absent or empty (\<open>not x\<close>).\<close>

definition missing :: "string option \<Rightarrow> bool" where
  "missing x = (case x of None \<Rightarrow> True | Some s \<Rightarrow> s = [])"

definition extract_job_from_card ::
  "env \<Rightarrow> elem \<Rightarrow> selectors \<Rightarrow> string \<Rightarrow> job_discovered option prog" where
  "extract_job_from_card ev element sels base_url =
    bind (lookup sels ''job_title'') (\<lambda>title_sel.
    bind (card_text ev element title_sel) (\<lambda>title_opt.
    bind (lookup sels ''job_link'') (\<lambda>link_sel.
    bind (card_link ev element link_sel base_url) (\<lambda>link.
    bind (optional_card_text ev element sels ''job_location'') (\<lambda>loc.
    bind (optional_card_text ev element sels ''job_team'') (\<lambda>tm.
    if missing link \<or> missing title_opt then return None
    else return (Some \<lparr>url = the link, title = the title_opt, location = loc, team = tm,
                        url_hash = generate_url_hash (sha256 ev) (the link),
                        search_category = None\<rparr>)))))))"

text \<open>
  The loop over the cards: a card whose extraction raises is skipped (\<open>continue\<close>), a
  card without title or link yields nothing, every other card is appended.
\<close>

fun extract_cards ::
  "env \<Rightarrow> selectors \<Rightarrow> string \<Rightarrow> elem list \<Rightarrow> job_discovered list \<Rightarrow> job_discovered list prog" where
  "extract_cards ev sels base_url [] jobs = return jobs"
| "extract_cards ev sels base_url (element # rest) jobs =
    (\<lambda>h. case extract_job_from_card ev element sels base_url h of
            (Inl e, h1) \<Rightarrow> extract_cards ev sels base_url rest jobs h1
          | (Inr None, h1) \<Rightarrow> extract_cards ev sels base_url rest jobs h1
          | (Inr (Some j), h1) \<Rightarrow> extract_cards ev sels base_url rest (jobs @ [j]) h1)"

text \<open>
  The body of the outer \<open>try\<close> of \<open>discover_jobs\<close>. The inner \<open>try\<close> around the wait for
  the first card returns the empty list when the wait raises.
\<close>

definition discover_body :: "env \<Rightarrow> settings \<Rightarrow> string \<Rightarrow> selectors \<Rightarrow> job_discovered list prog" where
  "discover_body ev st search_url sels =
    bind (perform (Goto search_url ''domcontentloaded'' 60000)
            (\<lambda>h. goto ev h search_url ''domcontentloaded'' 60000)) (\<lambda>_.
    bind (perform (WaitForTimeout 3000) (\<lambda>h. wait_for_timeout ev h 3000)) (\<lambda>_.
    bind (lookup sels ''job_card'') (\<lambda>job_card_selector.
    (\<lambda>h. case perform (WaitForSelector job_card_selector None 10000)
                 (\<lambda>h. wait_for_selector ev h job_card_selector None 10000) h of
            (Inl e, h1) \<Rightarrow> (Inr [], h1)
          | (Inr u, h1) \<Rightarrow>
              bind (infinite_scroll ev st job_card_selector 20) (\<lambda>total_cards.
              bind (perform (QuerySelectorAll job_card_selector)
                      (\<lambda>h. query_selector_all ev h job_card_selector)) (\<lambda>job_elements.
              extract_cards ev sels search_url job_elements [])) h1))))"

definition discover_jobs :: "env \<Rightarrow> settings \<Rightarrow> string \<Rightarrow> selectors \<Rightarrow> job_discovered list prog" where
  "discover_jobs ev st search_url sels =
    try_except (discover_body ev st search_url sels) (\<lambda>e. return [])"

text \<open>
  \<open>async with BrowserManager() as browser\<close>: when \<open>start\<close> raises the block is not
  entered and \<open>close\<close> is not called; otherwise \<open>close\<close> runs on every way out of the block,
  and a raise of \<open>close\<close> replaces the outcome of the block.
\<close>

definition with_browser :: "env \<Rightarrow> settings \<Rightarrow> (manager \<Rightarrow> 'a prog) \<Rightarrow> 'a prog" where
  "with_browser ev st block =
    (\<lambda>h. case start ev st new_manager h of
            ((Some e, m), h1) \<Rightarrow> (Inl e, h1)
          | ((None, m), h1) \<Rightarrow>
              (case block m h1 of
                 (r, h2) \<Rightarrow>
                   (case close ev m h2 of
                      (Inl e, h3) \<Rightarrow> (Inl e, h3)
                    | (Inr u, h3) \<Rightarrow> (r, h3))))"

text \<open>
  The dictionary \<open>all_jobs\<close>, keyed by fingerprint, in insertion order: a list of pairs
  with distinct keys. A listing whose key is new is stamped with the category and
  appended; another one is skipped.
\<close>

type_synonym job_dict = "(string \<times> job_discovered) list"

definition add_listing :: "string \<Rightarrow> job_discovered \<Rightarrow> job_dict \<Rightarrow> job_dict" where
  "add_listing category j all_jobs =
    (if url_hash j \<notin> fst ` set all_jobs
     then all_jobs @ [(url_hash j, j\<lparr>search_category := Some category\<rparr>)]
     else all_jobs)"

fun add_category_jobs :: "string \<Rightarrow> job_discovered list \<Rightarrow> job_dict \<Rightarrow> job_dict" where
  "add_category_jobs category [] all_jobs = all_jobs"
| "add_category_jobs category (j # jobs) all_jobs =
    add_category_jobs category jobs (add_listing category j all_jobs)"

definition search_url_of :: "company \<Rightarrow> string \<Rightarrow> string" where
  "search_url_of co category = careers_url co @ replace_space_plus category"

fun discover_categories ::
  "env \<Rightarrow> settings \<Rightarrow> company \<Rightarrow> string list \<Rightarrow> job_dict \<Rightarrow> job_dict prog" where
  "discover_categories ev st co [] all_jobs = return all_jobs"
| "discover_categories ev st co (category # rest) all_jobs =
    bind (discover_jobs ev st (search_url_of co category) (c_selectors co)) (\<lambda>jobs.
    discover_categories ev st co rest (add_category_jobs category jobs all_jobs))"

definition discover_all_jobs_for_company ::
  "env \<Rightarrow> settings \<Rightarrow> company \<Rightarrow> string list \<Rightarrow> job_discovered list prog" where
  "discover_all_jobs_for_company ev st co search_categories =
    with_browser ev st (\<lambda>browser.
      bind (discover_categories ev st co search_categories []) (\<lambda>all_jobs.
      return (map snd all_jobs)))"

text \<open>
  What each category search returned, in order, with the history threaded through as the
  run does it: the list the merge is a function of.
\<close>

fun category_results ::
  "env \<Rightarrow> settings \<Rightarrow> company \<Rightarrow> string list \<Rightarrow> hist \<Rightarrow> (string \<times> job_discovered list) list" where
  "category_results ev st co [] h = []"
| "category_results ev st co (category # rest) h =
    (case discover_jobs ev st (search_url_of co category) (c_selectors co) h of
       (Inl e, h1) \<Rightarrow> []
     | (Inr jobs, h1) \<Rightarrow> (category, jobs) # category_results ev st co rest h1)"

text \<open>The listings of all categories in the order they were produced, each with its category.\<close>

definition produced :: "(string \<times> job_discovered list) list \<Rightarrow> (string \<times> job_discovered) list" where
  "produced rs = concat (map (\<lambda>(category, jobs). map (\<lambda>j. (category, j)) jobs) rs)"


text \<open>The merge as a function of the sequence of produced listings, for the theorems.\<close>

definition merge_produced :: "(string \<times> job_discovered) list \<Rightarrow> job_dict \<Rightarrow> job_dict" where
  "merge_produced ps d = fold (\<lambda>(c, j). add_listing c j) ps d"

section \<open>Detail extraction: \<open>src/scraper/extractor.py\<close>\<close>

text \<open>The dictionary \<open>fields\<close> of \<open>_extract_fields\<close>: a key that was never set is absent.\<close>

record fields =
  f_title :: "string option"
  f_raw_description :: "string option"
  f_team :: "string option"
  f_location :: "string option"
  f_employment_type :: "string option"

text \<open>\<open>query_selector\<close> on the page, and the stripped inner text of the element found.\<close>

definition page_text :: "env \<Rightarrow> string \<Rightarrow> string option prog" where
  "page_text ev sel =
    bind (perform (QuerySelector sel) (\<lambda>h. query_selector ev h sel)) (\<lambda>found.
    case found of
      None \<Rightarrow> return None
    | Some el \<Rightarrow>
        bind (perform (InnerText el) (\<lambda>h. inner_text ev h el)) (\<lambda>t.
        return (Some (strip ev t))))"

definition optional_page_text :: "env \<Rightarrow> selectors \<Rightarrow> string \<Rightarrow> string option prog" where
  "optional_page_text ev sels k =
    (case configured sels k of None \<Rightarrow> return None | Some sel \<Rightarrow> page_text ev sel)"

text \<open>The fallback loop over \<open>main\<close>, \<open>article\<close>, \<open>body\<close>: the first element found wins.\<close>

fun fallback_description :: "env \<Rightarrow> string list \<Rightarrow> string option prog" where
  "fallback_description ev [] = return None"
| "fallback_description ev (fallback_selector # rest) =
    bind (page_text ev fallback_selector) (\<lambda>r.
    case r of Some t \<Rightarrow> return (Some t) | None \<Rightarrow> fallback_description ev rest)"

definition extract_fields :: "env \<Rightarrow> selectors \<Rightarrow> fields prog" where
  "extract_fields ev sels =
    bind (page_text ev (case sels ''detail_title'' of None \<Rightarrow> ''h1'' | Some s \<Rightarrow> s)) (\<lambda>t.
    bind (lookup sels ''detail_description'') (\<lambda>desc_sel.
    bind (page_text ev desc_sel) (\<lambda>d0.
    bind (case d0 of Some d \<Rightarrow> return (Some d)
          | None \<Rightarrow> fallback_description ev [''main'', ''article'', ''body'']) (\<lambda>d.
    bind (optional_page_text ev sels ''detail_team'') (\<lambda>tm.
    bind (optional_page_text ev sels ''detail_location'') (\<lambda>loc.
    bind (optional_page_text ev sels ''detail_type'') (\<lambda>ty.
    return \<lparr>f_title = t, f_raw_description = d, f_team = tm, f_location = loc,
             f_employment_type = ty\<rparr>)))))))"

text \<open>\<open>a or b\<close> on optional texts: \<open>a\<close> when it is present and not empty, else \<open>b\<close>.\<close>

definition or_else :: "string option \<Rightarrow> string option \<Rightarrow> string option" where
  "or_else a b = (if missing a then b else a)"

definition build_job :: "job_discovered \<Rightarrow> nat \<Rightarrow> fields \<Rightarrow> job" where
  "build_job jd cid job_data =
    \<lparr>job_id = None,
     company_id = cid,
     job_url = url jd,
     job_url_hash = url_hash jd,
     job_title = (if missing (f_title job_data) then title jd else the (f_title job_data)),
     job_team = or_else (f_team job_data) (team jd),
     job_location = or_else (f_location job_data) (location jd),
     employment_type =
       (case f_employment_type job_data of None \<Rightarrow> Some ''Full-time'' | Some t \<Rightarrow> Some t),
     experience_level = None,
     raw_description = f_raw_description job_data,
     processed = False\<rparr>"

text \<open>One attempt: the body of the \<open>try\<close> in the retry loop of \<open>extract_job_details\<close>.\<close>

definition attempt_extract :: "env \<Rightarrow> job_discovered \<Rightarrow> nat \<Rightarrow> selectors \<Rightarrow> job prog" where
  "attempt_extract ev jd cid sels =
    bind (perform (Goto (url jd) ''networkidle'' 60000)
            (\<lambda>h. goto ev h (url jd) ''networkidle'' 60000)) (\<lambda>_.
    bind (perform (WaitForTimeout 3000) (\<lambda>h. wait_for_timeout ev h 3000)) (\<lambda>_.
    bind (perform (Evaluate scroll_js) (\<lambda>h. evaluate ev h scroll_js)) (\<lambda>_.
    bind (perform (WaitForTimeout 2000) (\<lambda>h. wait_for_timeout ev h 2000)) (\<lambda>_.
    bind (lookup sels ''detail_description'') (\<lambda>desc_selector.
    bind (perform (WaitForSelector desc_selector (Some ''visible'') 15000)
            (\<lambda>h. wait_for_selector ev h desc_selector (Some ''visible'') 15000)) (\<lambda>_.
    bind (extract_fields ev sels) (\<lambda>job_data.
    return (build_job jd cid job_data))))))))"

text \<open>
  \<open>for attempt in range(max_retries)\<close>: a failed attempt that is not the last waits two
  seconds (a raise of that wait is inside the handler and leaves the function); the last
  failed attempt returns \<open>None\<close>.
\<close>

function extract_loop ::
  "env \<Rightarrow> job_discovered \<Rightarrow> nat \<Rightarrow> selectors \<Rightarrow> nat \<Rightarrow> nat \<Rightarrow> hist \<Rightarrow> (exn + job option) \<times> hist" where
  "extract_loop ev jd cid sels max_retries attempt h =
    (if attempt < max_retries then
       (case attempt_extract ev jd cid sels h of
          (Inr j, h1) \<Rightarrow> (Inr (Some j), h1)
        | (Inl e, h1) \<Rightarrow>
            (if attempt < max_retries - 1 then
               (case perform (WaitForTimeout 2000) (\<lambda>h. wait_for_timeout ev h 2000) h1 of
                  (Inl e', h2) \<Rightarrow> (Inl e', h2)
                | (Inr u, h2) \<Rightarrow> extract_loop ev jd cid sels max_retries (Suc attempt) h2)
             else (Inr None, h1)))
     else (Inr None, h))"
  by pat_completeness auto
termination
  by (relation "measure (\<lambda>(ev, jd, cid, sels, max_retries, attempt, h). max_retries - attempt)") auto

declare extract_loop.simps [simp del]

definition extract_job_details ::
  "env \<Rightarrow> job_discovered \<Rightarrow> nat \<Rightarrow> selectors \<Rightarrow> nat \<Rightarrow> job option prog" where
  "extract_job_details ev jd cid sels max_retries = extract_loop ev jd cid sels max_retries 0"

text \<open>What the history shows of the attempts on a listing: the navigations to its page.\<close>

definition navigations :: "string \<Rightarrow> hist \<Rightarrow> nat" where
  "navigations u h = length (filter (\<lambda>c. c = Goto u ''networkidle'' 60000) h)"

text \<open>The page on which the browser stands: the target of the last navigation.\<close>

fun current_page :: "hist \<Rightarrow> string option" where
  "current_page [] = None"
| "current_page (c # h) =
    (case current_page h of
       Some u \<Rightarrow> Some u
     | None \<Rightarrow> (case c of Goto u w t \<Rightarrow> Some u | _ \<Rightarrow> None))"

text \<open>\<open>range(0, n, step)\<close> for a positive step, and the slice \<open>xs[i:j]\<close>.\<close>

definition range_starts :: "nat \<Rightarrow> nat \<Rightarrow> nat list" where
  "range_starts n step = map (\<lambda>k. k * step) [0 ..< (n + step - 1) div step]"

definition slice :: "'a list \<Rightarrow> nat \<Rightarrow> nat \<Rightarrow> 'a list" where
  "slice xs i j = take (j - i) (drop i xs)"

text \<open>
  The loop over the listings of one batch: a listing that yields \<open>None\<close> adds nothing;
  the politeness delay follows every listing but the last one of the batch.
\<close>

fun extract_batch ::
  "env \<Rightarrow> settings \<Rightarrow> nat \<Rightarrow> selectors \<Rightarrow> job_discovered list \<Rightarrow> job list \<Rightarrow> job list prog" where
  "extract_batch ev st cid sels [] all_extracted_jobs = return all_extracted_jobs"
| "extract_batch ev st cid sels (job_disc # rest) all_extracted_jobs =
    bind (extract_job_details ev job_disc cid sels 3) (\<lambda>j.
    bind (if rest \<noteq> []
          then perform (WaitForTimeout (scraper_scroll_pause st * 1000))
                 (\<lambda>h. wait_for_timeout ev h (scraper_scroll_pause st * 1000))
          else return ()) (\<lambda>_.
    extract_batch ev st cid sels rest
      (case j of None \<Rightarrow> all_extracted_jobs | Some x \<Rightarrow> all_extracted_jobs @ [x])))"

fun extract_batches ::
  "env \<Rightarrow> settings \<Rightarrow> nat \<Rightarrow> selectors \<Rightarrow> job_discovered list \<Rightarrow> nat \<Rightarrow> nat list \<Rightarrow> job list
     \<Rightarrow> job list prog" where
  "extract_batches ev st cid sels jobs batch_size [] all_extracted_jobs = return all_extracted_jobs"
| "extract_batches ev st cid sels jobs batch_size (batch_num # rest) all_extracted_jobs =
    bind (with_browser ev st (\<lambda>browser.
            extract_batch ev st cid sels (slice jobs batch_num (batch_num + batch_size))
              all_extracted_jobs)) (\<lambda>extracted.
    extract_batches ev st cid sels jobs batch_size rest extracted)"

text \<open>\<open>range\<close> raises \<open>ValueError\<close> on the step 0.\<close>

definition extract_multiple_jobs ::
  "env \<Rightarrow> settings \<Rightarrow> job_discovered list \<Rightarrow> nat \<Rightarrow> selectors \<Rightarrow> nat \<Rightarrow> job list prog" where
  "extract_multiple_jobs ev st jobs cid sels batch_size =
    (if batch_size = 0 then raise (ValueError ''range() arg 3 must not be zero'')
     else extract_batches ev st cid sels jobs batch_size
            (range_starts (length jobs) batch_size) [])"

section \<open>The store: the tables of \<open>src/storage/database.py\<close> the driver uses\<close>

record scrape_run =
  run_company_id :: nat
  run_search_term :: string
  run_completed_at :: "string option"
  run_jobs_discovered :: nat
  run_jobs_scraped :: nat
  run_status :: string
  run_error_message :: "string option"

record database =
  jobs_table :: "job list"
  scrape_runs :: "scrape_run list"
  last_scraped :: "nat \<rightharpoonup> string"

text \<open>Row ids count from 1; the run with id \<open>k\<close> is the entry \<open>k - 1\<close> of the table.\<close>

definition create_scrape_run :: "database \<Rightarrow> nat \<Rightarrow> string \<Rightarrow> nat \<times> database" where
  "create_scrape_run db cid term =
    (Suc (length (scrape_runs db)),
     db\<lparr>scrape_runs := scrape_runs db @
          [\<lparr>run_company_id = cid, run_search_term = term, run_completed_at = None,
            run_jobs_discovered = 0, run_jobs_scraped = 0, run_status = ''running'',
            run_error_message = None\<rparr>]\<rparr>)"

text \<open>
  \<open>update_scrape_run\<close>: each column is written only when its argument passes the test of
  the source (\<open>is not None\<close> for the two counts, truth for \<open>status\<close> and \<open>error_message\<close>,
  so that an empty text writes nothing). \<open>now\<close> is the reading of the clock.
\<close>

definition update_run_row ::
  "string \<Rightarrow> nat option \<Rightarrow> nat option \<Rightarrow> string option \<Rightarrow> string option \<Rightarrow> scrape_run \<Rightarrow> scrape_run" where
  "update_run_row now discovered scraped status error_message r =
    (let r1 = (case discovered of None \<Rightarrow> r | Some n \<Rightarrow> r\<lparr>run_jobs_discovered := n\<rparr>);
         r2 = (case scraped of None \<Rightarrow> r1 | Some n \<Rightarrow> r1\<lparr>run_jobs_scraped := n\<rparr>);
         r3 = (if missing status then r2
               else if the status = ''completed''
                    then r2\<lparr>run_status := the status, run_completed_at := Some now\<rparr>
                    else r2\<lparr>run_status := the status\<rparr>);
         r4 = (if missing error_message then r3 else r3\<lparr>run_error_message := error_message\<rparr>)
     in r4)"

definition update_scrape_run ::
  "database \<Rightarrow> string \<Rightarrow> nat \<Rightarrow> nat option \<Rightarrow> nat option \<Rightarrow> string option \<Rightarrow> string option
     \<Rightarrow> database" where
  "update_scrape_run db now run_id discovered scraped status error_message =
    (if 0 < run_id \<and> run_id \<le> length (scrape_runs db)
     then db\<lparr>scrape_runs := (scrape_runs db)[run_id - 1 :=
               update_run_row now discovered scraped status error_message
                 (scrape_runs db ! (run_id - 1))]\<rparr>
     else db)"

definition get_scrape_run :: "database \<Rightarrow> nat \<Rightarrow> scrape_run option" where
  "get_scrape_run db run_id =
    (if 0 < run_id \<and> run_id \<le> length (scrape_runs db)
     then Some (scrape_runs db ! (run_id - 1)) else None)"

definition update_company_last_scraped :: "database \<Rightarrow> string \<Rightarrow> nat \<Rightarrow> database" where
  "update_company_last_scraped db now cid = db\<lparr>last_scraped := (last_scraped db)(cid \<mapsto> now)\<rparr>"

definition job_exists :: "database \<Rightarrow> string \<Rightarrow> bool" where
  "job_exists db h = (h \<in> set (map job_url_hash (jobs_table db)))"

text \<open>
  \<open>add_job\<close> inserts a row and commits; the columns \<open>job_url\<close> and \<open>job_url_hash\<close> are
  \<open>UNIQUE\<close>, and a second row with the same value raises.
\<close>

definition add_job :: "database \<Rightarrow> job \<Rightarrow> exn + nat \<times> database" where
  "add_job db j =
    (if job_url j \<in> set (map job_url (jobs_table db))
     then Inl (IntegrityError ''UNIQUE constraint failed: jobs.job_url'')
     else if job_url_hash j \<in> set (map job_url_hash (jobs_table db))
     then Inl (IntegrityError ''UNIQUE constraint failed: jobs.job_url_hash'')
     else Inr (Suc (length (jobs_table db)),
               db\<lparr>jobs_table := jobs_table db @ [j\<lparr>job_id := Some (Suc (length (jobs_table db)))\<rparr>]\<rparr>))"

section \<open>The batch pipeline driver: \<open>_scrape_async\<close> of \<open>src/cli/commands.py\<close>\<close>

text \<open>\<open>xs[:k]\<close> for an integer \<open>k\<close>: a negative \<open>k\<close> counts from the end.\<close>

definition py_prefix :: "'a list \<Rightarrow> int \<Rightarrow> 'a list" where
  "py_prefix xs k = (if 0 \<le> k then take (nat k) xs else take (length xs - nat (- k)) xs)"

text \<open>\<open>if job_limit and len(new_jobs) > job_limit\<close>: the limits \<open>None\<close> and 0 are both false.\<close>

definition apply_limit :: "int option \<Rightarrow> 'a list \<Rightarrow> 'a list" where
  "apply_limit job_limit new_jobs =
    (case job_limit of
       None \<Rightarrow> new_jobs
     | Some k \<Rightarrow> if k \<noteq> 0 \<and> int (length new_jobs) > k then py_prefix new_jobs k else new_jobs)"

definition new_jobs_of :: "database \<Rightarrow> int option \<Rightarrow> job_discovered list \<Rightarrow> job_discovered list" where
  "new_jobs_of db job_limit discovered =
    apply_limit job_limit (filter (\<lambda>j. \<not> job_exists db (url_hash j)) discovered)"

text \<open>The batches the driver forms: \<open>new_jobs[batch_start:batch_end]\<close> for every start.\<close>

definition batch_at :: "'a list \<Rightarrow> nat \<Rightarrow> nat \<Rightarrow> 'a list" where
  "batch_at new_jobs batch_size batch_start =
    slice new_jobs batch_start (min (batch_start + batch_size) (length new_jobs))"

definition batches_of :: "'a list \<Rightarrow> nat \<Rightarrow> 'a list list" where
  "batches_of new_jobs batch_size =
    map (batch_at new_jobs batch_size) (range_starts (length new_jobs) batch_size)"

text \<open>
  \<open>for job in jobs_extracted: db.add_job(job); saved_count += 1\<close>. Every \<open>add_job\<close>
  commits by itself, so the rows added before a raise stay.
\<close>

fun add_jobs :: "database \<Rightarrow> job list \<Rightarrow> nat \<Rightarrow> (exn + nat) \<times> database" where
  "add_jobs db [] saved_count = (Inr saved_count, db)"
| "add_jobs db (j # rest) saved_count =
    (case add_job db j of
       Inl e \<Rightarrow> (Inl e, db)
     | Inr (new_id, db1) \<Rightarrow> add_jobs db1 rest (Suc saved_count))"

fun save_batches ::
  "env \<Rightarrow> settings \<Rightarrow> company \<Rightarrow> job_discovered list \<Rightarrow> nat \<Rightarrow> nat list \<Rightarrow> nat \<Rightarrow> hist \<times> database
     \<Rightarrow> (exn + nat) \<times> hist \<times> database" where
  "save_batches ev st co new_jobs batch_size [] saved_count (h, db) = (Inr saved_count, h, db)"
| "save_batches ev st co new_jobs batch_size (batch_start # rest) saved_count (h, db) =
    (case extract_multiple_jobs ev st (batch_at new_jobs batch_size batch_start)
            (c_id co) (c_selectors co) batch_size h of
       (Inl e, h1) \<Rightarrow> (Inl e, h1, db)
     | (Inr jobs_extracted, h1) \<Rightarrow>
         (case add_jobs db jobs_extracted saved_count of
            (Inl e, db1) \<Rightarrow> (Inl e, h1, db1)
          | (Inr saved, db1) \<Rightarrow>
              save_batches ev st co new_jobs batch_size rest saved (h1, db1)))"

text \<open>The body of the \<open>try\<close> for one company, with the batch size 20 of the source.\<close>

definition scrape_body ::
  "env \<Rightarrow> settings \<Rightarrow> string \<Rightarrow> company \<Rightarrow> string list \<Rightarrow> int option \<Rightarrow> nat \<Rightarrow> hist \<times> database
     \<Rightarrow> (exn + unit) \<times> hist \<times> database" where
  "scrape_body ev st now co categories job_limit run_id s =
    (case s of (h, db) \<Rightarrow>
     (case discover_all_jobs_for_company ev st co categories h of
        (Inl e, h1) \<Rightarrow> (Inl e, h1, db)
      | (Inr discovered, h1) \<Rightarrow>
          (let db1 = update_scrape_run db now run_id (Some (length discovered)) None None None;
               new_jobs = new_jobs_of db1 job_limit discovered
           in if new_jobs = []
              then (Inr (), h1, update_scrape_run db1 now run_id None None (Some ''completed'') None)
              else (case save_batches ev st co new_jobs 20 (range_starts (length new_jobs) 20) 0
                           (h1, db1) of
                      (Inl e, h2, db2) \<Rightarrow> (Inl e, h2, db2)
                    | (Inr saved_count, h2, db2) \<Rightarrow>
                        (Inr (), h2,
                         update_company_last_scraped
                           (update_scrape_run db2 now run_id None (Some saved_count)
                              (Some ''completed'') None)
                           now (c_id co))))))"

text \<open>
  One turn of the loop over the companies: the run row is created, the body runs, and an
  exception of the body marks the run failed with \<open>str(e)\<close>.
\<close>

definition scrape_company ::
  "env \<Rightarrow> settings \<Rightarrow> string \<Rightarrow> company \<Rightarrow> string list \<Rightarrow> int option \<Rightarrow> hist \<times> database
     \<Rightarrow> hist \<times> database" where
  "scrape_company ev st now co categories job_limit s =
    (case s of (h, db) \<Rightarrow>
     (case create_scrape_run db (c_id co) ''Multiple categories'' of
        (run_id, db0) \<Rightarrow>
          (case scrape_body ev st now co categories job_limit run_id (h, db0) of
             (Inr u, h1, db1) \<Rightarrow> (h1, db1)
           | (Inl e, h1, db1) \<Rightarrow>
               (h1, update_scrape_run db1 now run_id None None (Some ''failed'')
                      (Some (str_exn e))))))"


section \<open>Concrete pages, for the examples\<close>

text \<open>A browser on which every call returns and no element is ever found.\<close>

definition quiet_env :: env where
  "quiet_env =
    \<lparr>playwright_start = (\<lambda>h. Inr 1), chromium_launch = (\<lambda>h b. Inr 2),
     new_context = (\<lambda>h b. Inr 3), new_page = (\<lambda>h c. Inr 4),
     set_default_timeout = (\<lambda>h n. Inr ()), page_close = (\<lambda>h x. Inr ()),
     context_close = (\<lambda>h x. Inr ()), browser_close = (\<lambda>h x. Inr ()),
     playwright_stop = (\<lambda>h x. Inr ()), goto = (\<lambda>h u w t. Inr ()),
     wait_for_timeout = (\<lambda>h n. Inr ()), evaluate = (\<lambda>h s. Inr ()),
     wait_for_selector = (\<lambda>h s v t. Inr ()), query_selector_all = (\<lambda>h s. Inr []),
     query_selector = (\<lambda>h s. Inr None), elem_query_selector = (\<lambda>h e s. Inr None),
     inner_text = (\<lambda>h e. Inr []), get_attribute = (\<lambda>h e a. Inr None),
     sha256 = (\<lambda>s. of_nat (length s)),
     urljoin = (\<lambda>b u. Inr (if startswith u ''http'' then u else ''https://example.com'' @ u)),
     strip = ascii_strip\<rparr>"

definition default_settings :: settings where
  "default_settings = \<lparr>scraper_headless = True, scraper_scroll_pause = 2, scraper_timeout = 30000\<rparr>"

text \<open>
  A page that answers the successive counts under \<open>sel\<close> with the numbers of \<open>cs\<close> (and
  with the last of them from then on).
\<close>

definition counting_page :: "string \<Rightarrow> nat list \<Rightarrow> env" where
  "counting_page sel cs =
    quiet_env\<lparr>query_selector_all :=
      (\<lambda>h s. if s = sel
              then Inr [0 ..< (if counts_taken sel h < length cs then cs ! counts_taken sel h
                               else if cs = [] then 0 else last cs)]
              else Inr [])\<rparr>"


text \<open>Listings and a store for the examples.\<close>

definition demo_url :: "nat \<Rightarrow> string" where
  "demo_url n = ''https://example.com/jobs/'' @ replicate n (CHR ''a'')"

definition demo_listing :: "nat \<Rightarrow> job_discovered" where
  "demo_listing n =
    \<lparr>url = demo_url n, title = ''Engineer'', location = None, team = None,
     url_hash = generate_url_hash (sha256 quiet_env) (demo_url n),
     search_category = Some ''Backend Engineer''\<rparr>"

definition empty_db :: database where
  "empty_db = \<lparr>jobs_table = [], scrape_runs = [], last_scraped = Map.empty\<rparr>"

text \<open>How often the history has launched a browser.\<close>

definition launches :: "hist \<Rightarrow> nat" where
  "launches h = length (filter (\<lambda>c. case c of ChromiumLaunch b \<Rightarrow> True | _ \<Rightarrow> False) h)"

text \<open>
  A careers site with \<open>n\<close> job cards: card \<open>k\<close> links to \<open>/jobs/\<close> followed by \<open>k\<close> letters,
  every detail page shows its description, and every call returns, except that the
  browser may fail to launch once: with \<open>crash = Some (k, msg)\<close> the launch that follows
  \<open>k\<close> earlier launches raises \<open>Error msg\<close>.
\<close>

definition crashing_site :: "nat \<Rightarrow> (nat \<times> string) option \<Rightarrow> env" where
  "crashing_site n crash =
    quiet_env\<lparr>
      chromium_launch :=
        (\<lambda>h b. case crash of
                  None \<Rightarrow> Inr 2
                | Some (k, msg) \<Rightarrow> if launches h = k then Inl (Error msg) else Inr 2),
      query_selector_all := (\<lambda>h s. if s = ''.job-card'' then Inr [0 ..< n] else Inr []),
      elem_query_selector := (\<lambda>h el s. Inr (Some el)),
      inner_text := (\<lambda>h el. Inr '' Engineer ''),
      get_attribute := (\<lambda>h el a. Inr (Some (''/jobs/'' @ replicate el (CHR ''a'')))),
      query_selector := (\<lambda>h s. if s = ''.description'' then Inr (Some 1000) else Inr None)\<rparr>"

definition demo_site :: "nat \<Rightarrow> env" where
  "demo_site n = crashing_site n None"

definition demo_selectors :: selectors where
  "demo_selectors =
    [''job_card'' \<mapsto> ''.job-card'', ''job_title'' \<mapsto> ''.title'', ''job_link'' \<mapsto> ''a'',
     ''detail_description'' \<mapsto> ''.description'']"

definition demo_company :: company where
  "demo_company =
    \<lparr>c_id = 1, c_name = ''Example'', careers_url = ''https://example.com/search?q='',
     c_selectors = demo_selectors\<rparr>"

text \<open>What the detail page of such a site yields, and the job built from it.\<close>

definition demo_fields :: fields where
  "demo_fields =
    \<lparr>f_title = None, f_raw_description = Some ''Engineer'', f_team = None, f_location = None,
     f_employment_type = None\<rparr>"

definition demo_job :: "nat \<Rightarrow> job" where
  "demo_job k = build_job (demo_listing k) 1 demo_fields"

text \<open>Names for what the example site yields and for its sessions.\<close>

definition site_card :: "nat \<Rightarrow> job_discovered" where
  "site_card k = (demo_listing k)\<lparr>search_category := None\<rparr>"

definition full_manager :: manager where
  "full_manager = \<lparr>m_playwright = Some 1, m_browser = Some 2, m_context = Some 3, m_page = Some 4\<rparr>"

definition will_launch :: "(nat \<times> string) option \<Rightarrow> hist \<Rightarrow> bool" where
  "will_launch cr h = (case cr of None \<Rightarrow> True | Some (k, msg) \<Rightarrow> launches h \<noteq> k)"

definition site_entry :: "string \<Rightarrow> nat \<Rightarrow> string \<times> job_discovered" where
  "site_entry c k = (url_hash (demo_listing k), (demo_listing k)\<lparr>search_category := Some c\<rparr>)"

section \<open>Observers and conditions for the theorems\<close>


text \<open>The listings among such outcomes: a raise and a \<open>None\<close> yield nothing.\<close>

fun extracted :: "(exn + job_discovered option) list \<Rightarrow> job_discovered list" where
  "extracted [] = []"
| "extracted (Inr (Some j) # rs) = j # extracted rs"
| "extracted (r # rs) = extracted rs"

text \<open>No card ever appears: the wait for the configured card selector always raises.\<close>

definition no_card_appears :: "env \<Rightarrow> selectors \<Rightarrow> bool" where
  "no_card_appears ev sels =
    (\<forall>s h. sels ''job_card'' = Some s \<longrightarrow> (\<exists>e. wait_for_selector ev h s None 10000 = Inl e))"

text \<open>
  The detail page \<open>u\<close> never exposes the description: whenever the browser stands on \<open>u\<close>,
  the wait for the configured description selector to become visible raises.
\<close>

definition never_exposes :: "env \<Rightarrow> selectors \<Rightarrow> string \<Rightarrow> bool" where
  "never_exposes ev sels u =
    (\<forall>s h. sels ''detail_description'' = Some s \<longrightarrow> current_page h = Some u \<longrightarrow>
       (\<exists>e. wait_for_selector ev h s (Some ''visible'') 15000 = Inl e))"

definition waits_return :: "env \<Rightarrow> bool" where
  "waits_return ev = (\<forall>h ms. wait_for_timeout ev h ms = Inr ())"

text \<open>
  The history after \<open>k\<close> attempts on a listing with the two-second backoff between one
  attempt and the next (and none after the last).
\<close>

fun after_attempts :: "env \<Rightarrow> job_discovered \<Rightarrow> nat \<Rightarrow> selectors \<Rightarrow> nat \<Rightarrow> hist \<Rightarrow> hist" where
  "after_attempts ev jd cid sels 0 h = h"
| "after_attempts ev jd cid sels (Suc 0) h = snd (attempt_extract ev jd cid sels h)"
| "after_attempts ev jd cid sels (Suc (Suc k)) h =
     after_attempts ev jd cid sels (Suc k)
       (snd (attempt_extract ev jd cid sels h) @ [WaitForTimeout 2000])"

text \<open>A job is in the table, under whatever row id it was given.\<close>

definition persisted :: "database \<Rightarrow> job \<Rightarrow> bool" where
  "persisted db j = (\<exists>s \<in> set (jobs_table db). s = j\<lparr>job_id := job_id s\<rparr>)"

text \<open>
  More example pages: one on which the wait for any selector times out, one whose card 1
  raises when it is queried, and one whose detail pages never show their description.
\<close>

definition timeout_page :: env where
  "timeout_page = quiet_env\<lparr>wait_for_selector := (\<lambda>h s v t. Inl (Error ''Timeout exceeded''))\<rparr>"


definition hidden_site :: env where
  "hidden_site =
    (demo_site 3)\<lparr>wait_for_selector :=
      (\<lambda>h s v t. if v = Some ''visible'' then Inl (Error ''Timeout 15000ms exceeded'') else Inr ())\<rparr>"


text \<open>
  The site whose detail pages never show their description, on which the page dies while
  the description is awaited: the pause that directly follows a failed wait for the
  description raises.
\<close>

definition dying_site :: env where
  "dying_site =
    hidden_site\<lparr>wait_for_timeout :=
      (\<lambda>h ms. if h \<noteq> [] \<and> last h = WaitForSelector ''.description'' (Some ''visible'') 15000
               then Inl (Error ''Target page, context or browser has been closed'')
               else Inr ())\<rparr>"

text \<open>
  What the history shows of detail extraction: the pages the browser was sent to with the
  navigation of \<open>extract_job_details\<close> (\<open>wait_until="networkidle"\<close>, 60 seconds), in order.
  Discovery navigates with \<open>domcontentloaded\<close>.
\<close>

definition detail_visits :: "hist \<Rightarrow> string list" where
  "detail_visits h =
    concat (map (\<lambda>c. case c of
                        Goto u w t \<Rightarrow> if w = ''networkidle'' \<and> t = 60000 then [u] else []
                      | _ \<Rightarrow> []) h)"

text \<open>
  The visits made when the listings \<open>jds\<close> are extracted one after the other and listing
  \<open>i\<close> takes \<open>ns ! i\<close> attempts; a list \<open>ns\<close> shorter than \<open>jds\<close> stands for a run that stopped
  early. Every listing that is reached takes between one and three attempts.
\<close>

definition visits_of :: "job_discovered list \<Rightarrow> nat list \<Rightarrow> string list" where
  "visits_of jds ns = concat (map (\<lambda>(jd, n). replicate n (url jd)) (zip jds ns))"

definition attempt_counts :: "bool \<Rightarrow> job_discovered list \<Rightarrow> nat list \<Rightarrow> bool" where
  "attempt_counts complete jds ns =
    (length ns \<le> length jds \<and> (complete \<longrightarrow> length ns = length jds) \<and>
     list_all (\<lambda>n. 1 \<le> n \<and> n \<le> 3) ns)"

text \<open>
  The visits \<open>vs\<close> are those of an extraction of the listings \<open>jds\<close> in order: of all of them
  when \<open>complete\<close>, and of an initial segment of them otherwise.
\<close>

definition visited :: "bool \<Rightarrow> job_discovered list \<Rightarrow> string list \<Rightarrow> bool" where
  "visited complete jds vs = (\<exists>ns. attempt_counts complete jds ns \<and> vs = visits_of jds ns)"

text \<open>A program that makes no detail navigation and only extends the history.\<close>

definition extends_quietly :: "'a prog \<Rightarrow> bool" where
  "extends_quietly m = (\<forall>h. \<exists>t. snd (m h) = h @ t \<and> detail_visits t = [])"

text \<open>The calls of a successful extraction of a detail page of the example site.\<close>

definition site_detail_calls :: "string \<Rightarrow> call list" where
  "site_detail_calls u =
    [Goto u ''networkidle'' 60000, WaitForTimeout 3000, Evaluate scroll_js, WaitForTimeout 2000,
     WaitForSelector ''.description'' (Some ''visible'') 15000,
     QuerySelector ''h1'', QuerySelector ''.description'', InnerText 1000]"


text \<open>
  One turn of the batch loop of the driver on the batch \<open>batch\<close>, followed by \<open>continue\<close>: the
  body of \<open>save_batches\<close>, for stating what the loop does turn by turn.
\<close>

definition save_step ::
  "env \<Rightarrow> settings \<Rightarrow> company \<Rightarrow> nat \<Rightarrow> job_discovered list
    \<Rightarrow> (nat \<Rightarrow> hist \<times> database \<Rightarrow> (exn + nat) \<times> hist \<times> database)
    \<Rightarrow> nat \<Rightarrow> hist \<times> database \<Rightarrow> (exn + nat) \<times> hist \<times> database" where
  "save_step ev st co batch_size batch continue saved_count s =
    (case s of (h, db) \<Rightarrow>
     (case extract_multiple_jobs ev st batch (c_id co) (c_selectors co) batch_size h of
        (Inl e, h1) \<Rightarrow> (Inl e, h1, db)
      | (Inr jobs_extracted, h1) \<Rightarrow>
          (case add_jobs db jobs_extracted saved_count of
             (Inl e, db1) \<Rightarrow> (Inl e, h1, db1)
           | (Inr saved, db1) \<Rightarrow> continue saved (h1, db1))))"

text \<open>The empty store in which the run with id 1 has just been created.\<close>

definition fresh_run_db :: database where
  "fresh_run_db = snd (create_scrape_run empty_db 1 ''Multiple categories'')"

section \<open>Theorems\<close>

lemma bind_return [simp]: "bind (return x) f = f x"
  by (simp add: bind_def return_def)

lemma bind_raise [simp]: "bind (raise e) f = raise e"
  by (simp add: bind_def raise_def fun_eq_iff)

lemma close_if_None [simp]: "close_if None c a = return ()"
  by (simp add: close_if_def)

lemma close_if_Some_ok:
  "a h x = Inr () \<Longrightarrow> close_if (Some x) c a h = (Inr (), h @ [c x])"
  by (simp add: close_if_def perform_def)

text \<open>
  Claim C8. For every state of a render session, with any subset of the playwright handle,
  the browser, the context and the page present, \<open>close\<close> calls the release of exactly the
  handles that are present, page first, then context, browser and playwright (the reverse
  of the order in which \<open>start\<close> acquires them), skips the absent ones and returns without
  raising, provided the release calls of the present handles themselves return.
\<close>

theorem close_releases_exactly_opened:
  assumes "releases_return ev m"
  shows "close ev m h = (Inr (), h @ held_releases m)"
proof -
  have pg: "\<And>h x. m_page m = Some x \<Longrightarrow> page_close ev h x = Inr ()"
    and cx: "\<And>h x. m_context m = Some x \<Longrightarrow> context_close ev h x = Inr ()"
    and br: "\<And>h x. m_browser m = Some x \<Longrightarrow> browser_close ev h x = Inr ()"
    and pw: "\<And>h x. m_playwright m = Some x \<Longrightarrow> playwright_stop ev h x = Inr ()"
    using assms by (auto simp: releases_return_def held_releases_def)
  show ?thesis
    by (cases "m_page m"; cases "m_context m"; cases "m_browser m"; cases "m_playwright m")
       (simp_all add: close_def held_releases_def bind_def close_if_Some_ok pg cx br pw return_def)
qed

theorem close_releases_exactly_opened_witness:
  "close quiet_env \<lparr>m_playwright = Some 1, m_browser = Some 2, m_context = None, m_page = None\<rparr> []
   = (Inr (), [BrowserClose 2, PlaywrightStop 1])"
proof -
  let ?m = "\<lparr>m_playwright = Some 1, m_browser = Some 2, m_context = None, m_page = None\<rparr>"
  have "releases_return quiet_env ?m"
    by (simp add: releases_return_def held_releases_def quiet_env_def)
  from close_releases_exactly_opened [OF this, of "[]"]
  show ?thesis by (simp add: held_releases_def)
qed

subsection \<open>Running programs\<close>

lemma perform_apply: "perform c a h = (a h, h @ [c])"
  by (simp add: perform_def)

lemma bind_apply: "bind m f h = (case m h of (Inl e, h') \<Rightarrow> (Inl e, h') | (Inr x, h') \<Rightarrow> f x h')"
  by (simp add: bind_def)

lemma return_apply: "return x h = (Inr x, h)"
  by (simp add: return_def)

subsection \<open>The scroll loop\<close>

lemma scroll_to_bottom_ok:
  assumes "evaluate ev h scroll_js = Inr ()"
    and "wait_for_timeout ev (h @ [Evaluate scroll_js]) (scraper_scroll_pause st * 1000) = Inr ()"
  shows "scroll_to_bottom ev st None h =
    (Inr (), h @ [Evaluate scroll_js, WaitForTimeout (scraper_scroll_pause st * 1000)])"
  using assms by (simp add: scroll_to_bottom_def bind_apply perform_apply Let_def)

lemma counts_taken_simps:
  "counts_taken sel [] = 0"
  "counts_taken sel (t @ u) = counts_taken sel t + counts_taken sel u"
  "counts_taken sel (QuerySelectorAll sel # t) = Suc (counts_taken sel t)"
  "counts_taken sel (Evaluate s # t) = counts_taken sel t"
  "counts_taken sel (WaitForTimeout n # t) = counts_taken sel t"
  by (simp_all add: counts_taken_def)

lemma counts_taken_iteration: "counts_taken sel (iteration_calls st sel) = 1"
  by (simp add: iteration_calls_def counts_taken_simps)

lemma count_sequence_step:
  assumes "count_sequence ev sel h (c # cs)"
  shows "count_sequence ev sel (h @ iteration_calls st sel) cs"
  unfolding count_sequence_def
proof (intro conjI allI impI)
  fix t assume "counts_taken sel t < length cs"
  then have "counts_taken sel (iteration_calls st sel @ t) < length (c # cs)"
    by (simp add: counts_taken_simps counts_taken_iteration)
  with assms obtain es where
    "query_selector_all ev (h @ iteration_calls st sel @ t) sel = Inr es"
    "length es = (c # cs) ! counts_taken sel (iteration_calls st sel @ t)"
    unfolding count_sequence_def by blast
  then show "\<exists>es. query_selector_all ev ((h @ iteration_calls st sel) @ t) sel = Inr es \<and>
              length es = cs ! counts_taken sel t"
    by (simp add: counts_taken_simps counts_taken_iteration)
qed (use assms in \<open>auto simp: count_sequence_def\<close>)

lemma loop_step:
  assumes cs: "count_sequence ev sel h (c # cs)" and lt: "sc < mx"
  shows "infinite_scroll_loop ev st sel mx prev sc h =
     (if c = prev then (Inr (prev, sc), h @ iteration_calls st sel)
      else infinite_scroll_loop ev st sel mx c (Suc sc) (h @ iteration_calls st sel))"
proof -
  have s: "scroll_to_bottom ev st None h =
    (Inr (), h @ [Evaluate scroll_js, WaitForTimeout (scraper_scroll_pause st * 1000)])"
    using cs by (intro scroll_to_bottom_ok) (auto simp: count_sequence_def)
  have "counts_taken sel [Evaluate scroll_js, WaitForTimeout (scraper_scroll_pause st * 1000)] < length (c # cs)"
    by (simp add: counts_taken_simps)
  with cs obtain es where
    q: "query_selector_all ev (h @ [Evaluate scroll_js, WaitForTimeout (scraper_scroll_pause st * 1000)]) sel = Inr es"
    and l: "length es = c"
    unfolding count_sequence_def
    by (metis counts_taken_simps(1,4,5) nth_Cons_0)
  show ?thesis
    using lt s q l
    by (subst infinite_scroll_loop.simps) (simp add: perform_apply iteration_calls_def)
qed

lemma loop_done:
  "\<not> sc < mx \<Longrightarrow> infinite_scroll_loop ev st sel mx prev sc h = (Inr (prev, sc), h)"
  by (subst infinite_scroll_loop.simps) simp

lemma loop_scripted:
  assumes "count_sequence ev sel h cs" and "mx - sc \<le> length cs"
  shows "\<exists>n. n \<le> mx - sc \<and>
     infinite_scroll_loop ev st sel mx prev sc h =
       (Inr ((prev # cs) ! n,
             if 0 < n \<and> (prev # cs) ! n = (prev # cs) ! (n - 1) then sc + n - 1 else sc + n),
        h @ concat (replicate n (iteration_calls st sel))) \<and>
     (\<forall>k. Suc k < n \<longrightarrow> (prev # cs) ! Suc k \<noteq> (prev # cs) ! k) \<and>
     (n < mx - sc \<longrightarrow> 0 < n \<and> (prev # cs) ! n = (prev # cs) ! (n - 1))"
  using assms
proof (induction cs arbitrary: prev sc h)
  case Nil
  then have n: "\<not> sc < mx" by simp
  then have e: "infinite_scroll_loop ev st sel mx prev sc h = (Inr (prev, sc), h)"
    by (rule loop_done)
  show ?case using n by - (rule exI[of _ 0], simp add: e)
next
  case (Cons c cs)
  show ?case
  proof (cases "sc < mx")
    case False
    then have e: "infinite_scroll_loop ev st sel mx prev sc h = (Inr (prev, sc), h)"
      by (rule loop_done)
    show ?thesis using False by - (rule exI[of _ 0], simp add: e)
  next
    case True
    note step = loop_step [OF Cons.prems(1) True, of st prev]
    show ?thesis
    proof (cases "c = prev")
      case True
      with step have e: "infinite_scroll_loop ev st sel mx prev sc h =
          (Inr (prev, sc), h @ iteration_calls st sel)" by simp
      show ?thesis using True \<open>sc < mx\<close> by - (rule exI[of _ 1], simp add: e)
    next
      case False
      have cs': "count_sequence ev sel (h @ iteration_calls st sel) cs"
        by (rule count_sequence_step [OF Cons.prems(1)])
      have len: "mx - Suc sc \<le> length cs" using Cons.prems(2) by simp
      from Cons.IH [OF cs' len, of c] obtain n where
        n: "n \<le> mx - Suc sc"
        and r: "infinite_scroll_loop ev st sel mx c (Suc sc) (h @ iteration_calls st sel) =
          (Inr ((c # cs) ! n,
             if 0 < n \<and> (c # cs) ! n = (c # cs) ! (n - 1) then Suc sc + n - 1 else Suc sc + n),
           (h @ iteration_calls st sel) @ concat (replicate n (iteration_calls st sel)))"
        and nr: "\<forall>k. Suc k < n \<longrightarrow> (c # cs) ! Suc k \<noteq> (c # cs) ! k"
        and br: "n < mx - Suc sc \<longrightarrow> 0 < n \<and> (c # cs) ! n = (c # cs) ! (n - 1)"
        by blast
      have eq: "infinite_scroll_loop ev st sel mx prev sc h =
          infinite_scroll_loop ev st sel mx c (Suc sc) (h @ iteration_calls st sel)"
        using step False by simp
      have 1: "Suc n \<le> mx - sc" using n True by simp
      have 2: "infinite_scroll_loop ev st sel mx prev sc h =
       (Inr ((prev # c # cs) ! Suc n,
             if 0 < Suc n \<and> (prev # c # cs) ! Suc n = (prev # c # cs) ! (Suc n - 1)
             then sc + Suc n - 1 else sc + Suc n),
        h @ concat (replicate (Suc n) (iteration_calls st sel)))"
      proof (cases n)
        case 0
        with eq r False show ?thesis by simp
      next
        case (Suc m)
        with eq r show ?thesis by simp
      qed
      have 3: "\<forall>k. Suc k < Suc n \<longrightarrow> (prev # c # cs) ! Suc k \<noteq> (prev # c # cs) ! k"
      proof (intro allI impI)
        fix k assume k: "Suc k < Suc n"
        show "(prev # c # cs) ! Suc k \<noteq> (prev # c # cs) ! k"
        proof (cases k)
          case 0 with False show ?thesis by simp
        next
          case (Suc j) with k nr show ?thesis by simp
        qed
      qed
      have 4: "Suc n < mx - sc \<longrightarrow> 0 < Suc n \<and> (prev # c # cs) ! Suc n = (prev # c # cs) ! (Suc n - 1)"
      proof
        assume "Suc n < mx - sc"
        then have "n < mx - Suc sc" by simp
        with br have "0 < n" "(c # cs) ! n = (c # cs) ! (n - 1)" by auto
        then show "0 < Suc n \<and> (prev # c # cs) ! Suc n = (prev # c # cs) ! (Suc n - 1)"
          by (cases n) simp_all
      qed
      from 1 2 3 4 show ?thesis by blast
    qed
  qed
qed

lemma loop_5_9_9:
  assumes cs: "count_sequence ev sel h [5, 9, 9]" and mx: "3 \<le> mx"
  shows "infinite_scroll_loop ev st sel mx 0 0 h =
    (Inr (9, 2), h @ iteration_calls st sel @ iteration_calls st sel @ iteration_calls st sel)"
proof -
  have c1: "count_sequence ev sel (h @ iteration_calls st sel) [9, 9]"
    by (rule count_sequence_step [OF cs])
  have c2: "count_sequence ev sel ((h @ iteration_calls st sel) @ iteration_calls st sel) [9]"
    by (rule count_sequence_step [OF c1])
  have "infinite_scroll_loop ev st sel mx 0 0 h =
      infinite_scroll_loop ev st sel mx 5 1 (h @ iteration_calls st sel)"
    using loop_step [OF cs, of 0 mx st 0] mx by simp
  also have "\<dots> = infinite_scroll_loop ev st sel mx 9 2 ((h @ iteration_calls st sel) @ iteration_calls st sel)"
    using loop_step [OF c1, of 1 mx st 5] mx by (simp add: numeral_2_eq_2)
  also have "\<dots> = (Inr (9, 2), ((h @ iteration_calls st sel) @ iteration_calls st sel) @ iteration_calls st sel)"
    using loop_step [OF c2, of 2 mx st 9] mx by simp
  finally show ?thesis by simp
qed

lemma scrolls_performed_simps:
  "scrolls_performed [] = 0"
  "scrolls_performed (t @ u) = scrolls_performed t + scrolls_performed u"
  by (simp_all add: scrolls_performed_def)

lemma scrolls_iteration: "scrolls_performed (iteration_calls st sel) = 1"
  by (simp add: iteration_calls_def scrolls_performed_def)

lemma scrolls_replicate: "scrolls_performed (concat (replicate n (iteration_calls st sel))) = n"
  by (induction n) (simp_all add: scrolls_performed_simps scrolls_iteration)

lemma scroll_to_bottom_hist:
  "\<exists>t. snd (scroll_to_bottom ev st p h) = h @ t \<and> scrolls_performed t = 1"
  by (auto simp: scroll_to_bottom_def bind_apply perform_apply Let_def scrolls_performed_def
           split: sum.splits)

lemma loop_bound:
  "\<exists>t. snd (infinite_scroll_loop ev st sel mx prev sc h) = h @ t \<and> scrolls_performed t \<le> mx - sc"
proof (induction "mx - sc" arbitrary: sc prev h)
  case 0
  then have "\<not> sc < mx" by simp
  then show ?case by (simp add: loop_done scrolls_performed_simps)
next
  case (Suc n)
  then have lt: "sc < mx" by simp
  obtain r h1 where s: "scroll_to_bottom ev st None h = (r, h1)" by (cases "scroll_to_bottom ev st None h")
  from scroll_to_bottom_hist [of ev st None h] s obtain t1 where
    t1: "h1 = h @ t1" "scrolls_performed t1 = 1" by auto
  show ?case
  proof (cases r)
    case (Inl e)
    with s lt have "infinite_scroll_loop ev st sel mx prev sc h = (Inl e, h1)"
      by (subst infinite_scroll_loop.simps) simp
    with t1 lt show ?thesis by simp
  next
    case (Inr u)
    show ?thesis
    proof (cases "query_selector_all ev h1 sel")
      case (Inl e)
      with s lt Inr have "infinite_scroll_loop ev st sel mx prev sc h = (Inr (prev, sc), h1 @ [QuerySelectorAll sel])"
        by (subst infinite_scroll_loop.simps) (simp add: perform_apply)
      with t1 lt show ?thesis by (simp add: scrolls_performed_def)
    next
      case es: (Inr es)
      show ?thesis
      proof (cases "length es = prev")
        case True
        with es s lt Inr have "infinite_scroll_loop ev st sel mx prev sc h = (Inr (prev, sc), h1 @ [QuerySelectorAll sel])"
          by (subst infinite_scroll_loop.simps) (simp add: perform_apply)
        with t1 lt show ?thesis by (simp add: scrolls_performed_def)
      next
        case False
        with es s lt Inr have e: "infinite_scroll_loop ev st sel mx prev sc h =
            infinite_scroll_loop ev st sel mx (length es) (Suc sc) (h1 @ [QuerySelectorAll sel])"
          by (subst infinite_scroll_loop.simps) (simp add: perform_apply)
        have "n = mx - Suc sc" using Suc.hyps(2) by simp
        from Suc.hyps(1) [OF this, of "length es" "h1 @ [QuerySelectorAll sel]"] obtain t where
          t: "snd (infinite_scroll_loop ev st sel mx (length es) (Suc sc) (h1 @ [QuerySelectorAll sel])) =
                (h1 @ [QuerySelectorAll sel]) @ t" "scrolls_performed t \<le> mx - Suc sc"
          by blast
        have "snd (infinite_scroll_loop ev st sel mx prev sc h) = h @ (t1 @ [QuerySelectorAll sel] @ t)"
          using e t t1 by simp
        moreover have "scrolls_performed (t1 @ [QuerySelectorAll sel] @ t) \<le> mx - sc"
          using t(2) t1(2) lt by (simp add: scrolls_performed_def)
        ultimately show ?thesis by blast
      qed
    qed
  qed
qed


lemma count_sequence_counting_page: "count_sequence (counting_page sel cs) sel [] cs"
  by (simp add: count_sequence_def counting_page_def quiet_env_def)

text \<open>
  Claim C2, as the code has it. On every page whose successive counts under the card
  selector are 5, 9, 9, and for every \<open>max_scrolls\<close> of at least 3 (the default is 20),
  \<open>infinite_scroll\<close> returns 9 after three turns of the loop, each of which scrolls once
  and counts once: the third turn sees the repeated count and stops, and the counter
  \<open>scroll_count\<close>, which counts the turns that found new elements, stands at 2. In general,
  on a page with the count sequence \<open>cs\<close> (at least \<open>max_scrolls\<close> long), the loop makes
  \<open>n\<close> turns, \<open>n\<close> at most \<open>max_scrolls\<close>, and returns the count of the last turn (0 when
  there was no turn); no turn before the last saw a count equal to the one before it (the
  count before the first being 0), and when \<open>n\<close> is less than \<open>max_scrolls\<close> the last
  turn did see such a count. On any page whatever, the loop scrolls at most
  \<open>max_scrolls\<close> times.
\<close>

theorem infinite_scroll_stops_on_repeat:
  "(count_sequence ev sel h [5, 9, 9] \<and> 3 \<le> mx \<longrightarrow>
      infinite_scroll ev st sel mx h =
        (Inr 9, h @ iteration_calls st sel @ iteration_calls st sel @ iteration_calls st sel) \<and>
      fst (infinite_scroll_loop ev st sel mx 0 0 h) = Inr (9, 2)) \<and>
   (count_sequence ev sel h cs \<and> mx \<le> length cs \<longrightarrow>
      (\<exists>n. n \<le> mx \<and>
         infinite_scroll ev st sel mx h =
           (Inr ((0 # cs) ! n), h @ concat (replicate n (iteration_calls st sel))) \<and>
         (\<forall>k. Suc k < n \<longrightarrow> (0 # cs) ! Suc k \<noteq> (0 # cs) ! k) \<and>
         (n < mx \<longrightarrow> 0 < n \<and> (0 # cs) ! n = (0 # cs) ! (n - 1)))) \<and>
   (\<exists>t. snd (infinite_scroll ev st sel mx h) = h @ t \<and> scrolls_performed t \<le> mx)"
proof (intro conjI impI)
  assume a: "count_sequence ev sel h [5, 9, 9] \<and> 3 \<le> mx"
  then have l: "infinite_scroll_loop ev st sel mx 0 0 h =
    (Inr (9, 2), h @ iteration_calls st sel @ iteration_calls st sel @ iteration_calls st sel)"
    by (intro loop_5_9_9) simp_all
  show "infinite_scroll ev st sel mx h =
        (Inr 9, h @ iteration_calls st sel @ iteration_calls st sel @ iteration_calls st sel)"
    by (simp add: infinite_scroll_def bind_apply l return_apply)
  show "fst (infinite_scroll_loop ev st sel mx 0 0 h) = Inr (9, 2)"
    by (simp add: l)
next
  assume a: "count_sequence ev sel h cs \<and> mx \<le> length cs"
  then have "count_sequence ev sel h cs" "mx - 0 \<le> length cs" by simp_all
  from loop_scripted [OF this, of st 0] obtain n where
    n: "n \<le> mx"
    and r: "infinite_scroll_loop ev st sel mx 0 0 h =
       (Inr ((0 # cs) ! n,
             if 0 < n \<and> (0 # cs) ! n = (0 # cs) ! (n - 1) then 0 + n - 1 else 0 + n),
        h @ concat (replicate n (iteration_calls st sel)))"
    and nr: "\<forall>k. Suc k < n \<longrightarrow> (0 # cs) ! Suc k \<noteq> (0 # cs) ! k"
    and br: "n < mx \<longrightarrow> 0 < n \<and> (0 # cs) ! n = (0 # cs) ! (n - 1)"
    by auto
  have "infinite_scroll ev st sel mx h =
           (Inr ((0 # cs) ! n), h @ concat (replicate n (iteration_calls st sel)))"
    by (simp add: infinite_scroll_def bind_apply r return_apply)
  with n nr br show "\<exists>n. n \<le> mx \<and>
         infinite_scroll ev st sel mx h =
           (Inr ((0 # cs) ! n), h @ concat (replicate n (iteration_calls st sel))) \<and>
         (\<forall>k. Suc k < n \<longrightarrow> (0 # cs) ! Suc k \<noteq> (0 # cs) ! k) \<and>
         (n < mx \<longrightarrow> 0 < n \<and> (0 # cs) ! n = (0 # cs) ! (n - 1))"
    by blast
next
  from loop_bound [of ev st sel mx 0 0 h] obtain t where
    t: "snd (infinite_scroll_loop ev st sel mx 0 0 h) = h @ t" "scrolls_performed t \<le> mx"
    by auto
  have "snd (infinite_scroll ev st sel mx h) = snd (infinite_scroll_loop ev st sel mx 0 0 h)"
    by (simp add: infinite_scroll_def bind_apply return_apply split: prod.splits sum.splits)
  with t show "\<exists>t. snd (infinite_scroll ev st sel mx h) = h @ t \<and> scrolls_performed t \<le> mx"
    by auto
qed

theorem infinite_scroll_stops_on_repeat_witness:
  "infinite_scroll (counting_page ''.job-card'' [5, 9, 9]) default_settings ''.job-card'' 20 [] =
     (Inr 9,
      [Evaluate scroll_js, WaitForTimeout 2000, QuerySelectorAll ''.job-card'',
       Evaluate scroll_js, WaitForTimeout 2000, QuerySelectorAll ''.job-card'',
       Evaluate scroll_js, WaitForTimeout 2000, QuerySelectorAll ''.job-card'']) \<and>
   fst (infinite_scroll_loop (counting_page ''.job-card'' [5, 9, 9]) default_settings
          ''.job-card'' 20 0 0 []) = Inr (9, 2)"
  using infinite_scroll_stops_on_repeat
    [of "counting_page ''.job-card'' [5, 9, 9]" "''.job-card''" "[]" 20 default_settings "[]"]
    count_sequence_counting_page [of "''.job-card''" "[5, 9, 9]"]
  by (simp add: iteration_calls_def default_settings_def)

text \<open>
  The claim as it is written fails on such a page: with the default \<open>max_scrolls\<close> the
  loop returns 9 there, but it has scrolled three times and counted three times, not twice.
\<close>

theorem infinite_scroll_three_iterations:
  "fst (infinite_scroll (counting_page ''.job-card'' [5, 9, 9]) default_settings ''.job-card'' 20 [])
     = Inr 9 \<and>
   scrolls_performed
     (snd (infinite_scroll (counting_page ''.job-card'' [5, 9, 9]) default_settings ''.job-card'' 20 []))
     = 3 \<and>
   counts_taken ''.job-card''
     (snd (infinite_scroll (counting_page ''.job-card'' [5, 9, 9]) default_settings ''.job-card'' 20 []))
     = 3 \<and>
   scrolls_performed
     (snd (infinite_scroll (counting_page ''.job-card'' [5, 9, 9]) default_settings ''.job-card'' 20 []))
     \<noteq> 2"
proof -
  have "infinite_scroll_loop (counting_page ''.job-card'' [5, 9, 9]) default_settings ''.job-card'' 20 0 0 [] =
    (Inr (9, 2), [] @ iteration_calls default_settings ''.job-card'' @
       iteration_calls default_settings ''.job-card'' @ iteration_calls default_settings ''.job-card'')"
    by (rule loop_5_9_9 [OF count_sequence_counting_page]) simp
  then show ?thesis
    by (simp add: infinite_scroll_def bind_apply return_apply iteration_calls_def
          scrolls_performed_def counts_taken_def)
qed

subsection \<open>Batches and the job limit\<close>

lemma slice_batch: "batch_start \<le> length xs \<Longrightarrow> batch_at xs bs batch_start = take bs (drop batch_start xs)"
  by (simp add: batch_at_def slice_def min_def)

lemma concat_takes: "concat (map (\<lambda>k. take bs (drop (k * bs) xs)) [0..<m]) = take (m * bs) xs"
proof (induction m)
  case 0 show ?case by simp
next
  case (Suc m)
  have "take (m * bs) xs @ take bs (drop (m * bs) xs) = take (m * bs + bs) xs"
    by (simp add: take_add)
  with Suc show ?case by (simp add: add.commute)
qed

lemma ceil_div_covers: "0 < bs \<Longrightarrow> n \<le> ((n + bs - 1) div bs) * (bs::nat)"
proof -
  assume bs: "0 < bs"
  have 1: "n + bs - 1 = ((n + bs - 1) div bs) * bs + (n + bs - 1) mod bs" by simp
  have 2: "(n + bs - 1) mod bs < bs" using bs by simp
  from 1 2 bs show ?thesis by linarith
qed

lemma range_starts_le: "0 < bs \<Longrightarrow> s \<in> set (range_starts n bs) \<Longrightarrow> s < n"
proof -
  assume bs: "0 < bs" and "s \<in> set (range_starts n bs)"
  then obtain k where k: "k < (n + bs - 1) div bs" "s = k * bs"
    by (auto simp: range_starts_def)
  then have "Suc k * bs \<le> ((n + bs - 1) div bs) * bs" by (intro mult_le_mono1) simp
  also have "\<dots> \<le> n + bs - 1" by simp
  finally show "s < n" using k bs by simp
qed

lemma concat_batches: "0 < bs \<Longrightarrow> concat (batches_of xs bs) = xs"
proof -
  assume bs: "0 < bs"
  have "batches_of xs bs = map (\<lambda>s. take bs (drop s xs)) (range_starts (length xs) bs)"
    unfolding batches_of_def
    by (rule map_cong [OF refl]) (use range_starts_le [OF bs] in \<open>simp add: slice_batch less_imp_le\<close>)
  also have "\<dots> = map (\<lambda>k. take bs (drop (k * bs) xs)) [0..<(length xs + bs - 1) div bs]"
    by (simp add: range_starts_def comp_def)
  finally have "concat (batches_of xs bs) = take (((length xs + bs - 1) div bs) * bs) xs"
    by (simp add: concat_takes)
  with ceil_div_covers [OF bs, of "length xs"] show ?thesis by simp
qed

lemma range_starts_45: "range_starts 45 20 = [0, 20, 40]"
  by code_simp

lemma batches_45:
  assumes "length xs = 45"
  shows "batches_of xs 20 = [take 20 xs, take 20 (drop 20 xs), drop 40 xs]"
  using assms by (simp add: batches_of_def range_starts_45 batch_at_def slice_def)

lemma apply_limit_pos: "0 < k \<Longrightarrow> apply_limit (Some k) xs = take (nat k) xs"
  by (auto simp: apply_limit_def py_prefix_def)


lemma job_exists_empty: "\<not> job_exists empty_db x"
  by (simp add: job_exists_def empty_db_def)

subsection \<open>The fingerprint\<close>

lemma hex_digit_inj: "a < 16 \<Longrightarrow> b < 16 \<Longrightarrow> hex_digit a = hex_digit b \<Longrightarrow> a = b"
proof -
  assume a: "a < 16" and b: "b < 16" and e: "hex_digit a = hex_digit b"
  have d: "distinct ''0123456789abcdef''" by simp
  have l: "length ''0123456789abcdef'' = 16" by simp
  from e have "''0123456789abcdef'' ! a = ''0123456789abcdef'' ! b" by (simp add: hex_digit_def)
  with nth_eq_iff_index_eq [OF d, of a b] a b l show "a = b" by simp
qed

lemma hex_of_nat_inj:
  "x < 16 ^ n \<Longrightarrow> y < 16 ^ n \<Longrightarrow> hex_of_nat n x = hex_of_nat n y \<Longrightarrow> x = y"
proof (induction n arbitrary: x y)
  case 0
  then show ?case by simp
next
  case (Suc n)
  from Suc.prems(3) have e: "hex_of_nat n (x div 16) = hex_of_nat n (y div 16)"
    and d: "hex_digit (x mod 16) = hex_digit (y mod 16)" by simp_all
  have "x div 16 < 16 ^ n" "y div 16 < 16 ^ n"
    using Suc.prems(1,2) by (simp_all add: less_mult_imp_div_less mult.commute)
  from Suc.IH [OF this e] have q: "x div 16 = y div 16" .
  have r: "x mod 16 = y mod 16" by (rule hex_digit_inj [OF _ _ d]) simp_all
  from q r show ?case by (metis div_mult_mod_eq)
qed

lemma hex_of_nat_length: "length (hex_of_nat n x) = n"
  by (induction n arbitrary: x) simp_all

lemma hexdigest_inj: "hexdigest v = hexdigest w \<Longrightarrow> v = w"
proof -
  assume e: "hexdigest v = hexdigest w"
  have p: "(2::nat) ^ 256 = 16 ^ 64" by simp
  have "unat v < 2 ^ LENGTH(256)" "unat w < 2 ^ LENGTH(256)" by (rule unsigned_less)+
  then have "unat v < 16 ^ 64" "unat w < 16 ^ 64" using p by simp_all
  from hex_of_nat_inj [OF this] e have "unat v = unat w" by (simp add: hexdigest_def)
  then show "v = w" by (simp add: word_unat_eq_iff)
qed

lemma generate_url_hash_eq: "generate_url_hash sha u = generate_url_hash sha v \<longleftrightarrow> sha u = sha v"
  by (auto simp: generate_url_hash_def dest: hexdigest_inj)

lemma normalize_http: "normalize_url join base (''http'' @ s) = Inr (''http'' @ s)"
  by (simp add: normalize_url_def startswith_def)



lemma bind_Inl_iff:
  "bind m f h = (Inl e, h') \<longleftrightarrow>
     m h = (Inl e, h') \<or> (\<exists>y h1. m h = (Inr y, h1) \<and> f y h1 = (Inl e, h'))"
  by (auto simp: bind_def split: prod.splits sum.splits)

lemma raise_apply: "raise e h = (Inl e, h)"
  by (simp add: raise_def)





subsection \<open>The merge of the category searches\<close>

lemma merge_produced_simps:
  "merge_produced [] d = d"
  "merge_produced ((c, j) # ps) d = merge_produced ps (add_listing c j d)"
  "merge_produced (ps @ qs) d = merge_produced qs (merge_produced ps d)"
  by (simp_all add: merge_produced_def)

lemma add_category_jobs_merge:
  "add_category_jobs c jobs d = merge_produced (map (\<lambda>j. (c, j)) jobs) d"
  by (induction jobs arbitrary: d) (simp_all add: merge_produced_simps)

lemma add_listing_keys: "fst ` set (add_listing c j d) = insert (url_hash j) (fst ` set d)"
  by (auto simp: add_listing_def)

lemma add_listing_distinct: "distinct (map fst d) \<Longrightarrow> distinct (map fst (add_listing c j d))"
  by (auto simp: add_listing_def)

lemma add_listing_mem:
  "(k, r) \<in> set (add_listing c j d) \<longleftrightarrow>
     (k, r) \<in> set d \<or> (url_hash j \<notin> fst ` set d \<and> k = url_hash j \<and> r = j\<lparr>search_category := Some c\<rparr>)"
  by (auto simp: add_listing_def)

lemma merge_distinct: "distinct (map fst d) \<Longrightarrow> distinct (map fst (merge_produced ps d))"
  by (induction ps arbitrary: d) (auto simp: merge_produced_simps add_listing_distinct)

lemma merge_keys: "fst ` set (merge_produced ps d) = fst ` set d \<union> (\<lambda>(c, j). url_hash j) ` set ps"
proof (induction ps arbitrary: d)
  case Nil
  show ?case by (simp add: merge_produced_simps)
next
  case (Cons p ps)
  obtain c j where p: "p = (c, j)" by (cases p)
  have "fst ` set (merge_produced (p # ps) d) =
      fst ` set (add_listing c j d) \<union> (\<lambda>(c, j). url_hash j) ` set ps"
    using Cons [of "add_listing c j d"] by (simp add: p merge_produced_simps)
  then show ?case by (simp add: add_listing_keys p)
qed

lemma merge_first_seen:
  "(k, r) \<in> set (merge_produced ps d) \<Longrightarrow>
     (k, r) \<in> set d \<or>
     (k \<notin> fst ` set d \<and>
      (\<exists>c j. find (\<lambda>(c, j). url_hash j = k) ps = Some (c, j) \<and> r = j\<lparr>search_category := Some c\<rparr>))"
proof (induction ps arbitrary: d)
  case Nil
  then show ?case by (simp add: merge_produced_simps)
next
  case (Cons p ps)
  obtain c j where p: "p = (c, j)" by (cases p)
  from Cons.prems have m: "(k, r) \<in> set (merge_produced ps (add_listing c j d))"
    by (simp add: p merge_produced_simps)
  from Cons.IH [OF m] show ?case
  proof
    assume "(k, r) \<in> set (add_listing c j d)"
    then show ?thesis by (auto simp: add_listing_mem p)
  next
    assume a: "k \<notin> fst ` set (add_listing c j d) \<and>
      (\<exists>c' j'. find (\<lambda>(c, j). url_hash j = k) ps = Some (c', j') \<and> r = j'\<lparr>search_category := Some c'\<rparr>)"
    then have "k \<noteq> url_hash j" "k \<notin> fst ` set d" by (auto simp: add_listing_keys)
    with a show ?thesis by (auto simp: p)
  qed
qed

lemma merge_key_is_hash:
  "\<forall>(k, r) \<in> set d. url_hash r = k \<Longrightarrow> \<forall>(k, r) \<in> set (merge_produced ps d). url_hash r = k"
proof (induction ps arbitrary: d)
  case Nil
  then show ?case by (simp add: merge_produced_simps)
next
  case (Cons p ps)
  obtain c j where p: "p = (c, j)" by (cases p)
  have "\<forall>(k, r) \<in> set (add_listing c j d). url_hash r = k"
    using Cons.prems by (auto simp: add_listing_def)
  from Cons.IH [OF this] show ?case by (simp add: p merge_produced_simps)
qed

lemma try_except_return: "\<exists>x h'. try_except m (\<lambda>e. return v) h = (Inr x, h')"
  by (auto simp: try_except_def return_def split: prod.splits sum.splits)

lemma discover_jobs_returns: "\<exists>jobs h'. discover_jobs ev st u sels h = (Inr jobs, h')"
  unfolding discover_jobs_def by (rule try_except_return)

lemma discover_categories_merge:
  "\<exists>h'. discover_categories ev st co cats d h =
     (Inr (merge_produced (produced (category_results ev st co cats h)) d), h')"
proof (induction cats arbitrary: d h)
  case Nil
  show ?case by (simp add: return_def produced_def merge_produced_simps)
next
  case (Cons c cats)
  from discover_jobs_returns [of ev st "search_url_of co c" "c_selectors co" h]
  obtain jobs h1 where j: "discover_jobs ev st (search_url_of co c) (c_selectors co) h = (Inr jobs, h1)"
    by blast
  from Cons [of "add_category_jobs c jobs d" h1] obtain h' where
    "discover_categories ev st co cats (add_category_jobs c jobs d) h1 =
     (Inr (merge_produced (produced (category_results ev st co cats h1)) (add_category_jobs c jobs d)), h')"
    by blast
  then show ?case
    by (simp add: bind_apply j produced_def merge_produced_simps add_category_jobs_merge)
qed

lemma category_results_cats: "map fst (category_results ev st co cats h) = cats"
proof (induction cats arbitrary: h)
  case Nil show ?case by simp
next
  case (Cons c cats)
  from discover_jobs_returns [of ev st "search_url_of co c" "c_selectors co" h]
  obtain jobs h1 where j: "discover_jobs ev st (search_url_of co c) (c_selectors co) h = (Inr jobs, h1)"
    by blast
  show ?case by (simp add: j Cons)
qed


lemma with_browser_Inr:
  assumes "fst (with_browser ev st block h) = Inr x"
  shows "\<exists>m. fst (block m (snd (start ev st new_manager h))) = Inr x"
proof -
  obtain r m h1 where s: "start ev st new_manager h = ((r, m), h1)"
    by (cases "start ev st new_manager h") auto
  obtain b h2 where bl: "block m h1 = (b, h2)" by (cases "block m h1")
  from assms s bl have "b = Inr x"
    by (auto simp: with_browser_def split: option.splits prod.splits sum.splits)
  with s bl have "fst (block m (snd (start ev st new_manager h))) = Inr x" by simp
  then show ?thesis by blast
qed

lemma discover_all_merge:
  assumes "fst (discover_all_jobs_for_company ev st co cats h) = Inr result"
  shows "result = map snd (merge_produced
           (produced (category_results ev st co cats (snd (start ev st new_manager h)))) [])"
proof -
  let ?h1 = "snd (start ev st new_manager h)"
  from with_browser_Inr [OF assms [unfolded discover_all_jobs_for_company_def]]
  have r: "fst (bind (discover_categories ev st co cats []) (\<lambda>all_jobs. return (map snd all_jobs)) ?h1)
      = Inr result" by blast
  from discover_categories_merge [of ev st co cats "[]" ?h1] obtain h' where
    "discover_categories ev st co cats [] ?h1 =
       (Inr (merge_produced (produced (category_results ev st co cats ?h1)) []), h')" by blast
  with r show ?thesis by (simp add: bind_apply return_apply)
qed

text \<open>
  Claim C3. Whenever \<open>discover_all_jobs_for_company\<close> returns, its result has exactly one
  listing for every fingerprint that any category search produced and no other: the
  fingerprints of the result are distinct and are those of the produced listings. Every
  listing of the result is the first produced listing with its fingerprint, in the order of
  the searches, stamped with the category of that search and otherwise unchanged. Every
  category is searched, in the order given.
\<close>

theorem merged_listings_first_seen:
  assumes "fst (discover_all_jobs_for_company ev st co cats h) = Inr result"
  shows "distinct (map url_hash result) \<and>
    url_hash ` set result =
      (\<lambda>(c, j). url_hash j) `
        set (produced (category_results ev st co cats (snd (start ev st new_manager h)))) \<and>
    (\<forall>r \<in> set result. \<exists>c j.
        find (\<lambda>(c, j). url_hash j = url_hash r)
          (produced (category_results ev st co cats (snd (start ev st new_manager h)))) = Some (c, j) \<and>
        r = j\<lparr>search_category := Some c\<rparr>) \<and>
    map fst (category_results ev st co cats (snd (start ev st new_manager h))) = cats"
proof -
  let ?ps = "produced (category_results ev st co cats (snd (start ev st new_manager h)))"
  let ?d = "merge_produced ?ps []"
  have res: "result = map snd ?d" by (rule discover_all_merge [OF assms])
  have key: "\<forall>(k, r) \<in> set ?d. url_hash r = k"
    by (rule merge_key_is_hash) simp
  then have keys: "map url_hash result = map fst ?d"
    by (auto simp: res)
  have dist: "distinct (map fst ?d)" by (rule merge_distinct) simp
  have 1: "distinct (map url_hash result)" by (simp add: keys dist)
  have "set (map url_hash result) = fst ` set ?d" by (simp only: keys set_map)
  then have 2: "url_hash ` set result = (\<lambda>(c, j). url_hash j) ` set ?ps"
    by (simp add: merge_keys)
  have 3: "\<forall>r \<in> set result. \<exists>c j.
        find (\<lambda>(c, j). url_hash j = url_hash r) ?ps = Some (c, j) \<and>
        r = j\<lparr>search_category := Some c\<rparr>"
  proof
    fix r assume "r \<in> set result"
    then obtain k where m: "(k, r) \<in> set ?d" by (auto simp: res)
    with key have k: "k = url_hash r" by auto
    from merge_first_seen [OF m] k
    show "\<exists>c j. find (\<lambda>(c, j). url_hash j = url_hash r) ?ps = Some (c, j) \<and>
        r = j\<lparr>search_category := Some c\<rparr>" by simp
  qed
  have 4: "map fst (category_results ev st co cats (snd (start ev st new_manager h))) = cats"
    by (rule category_results_cats)
  from 1 2 3 4 show ?thesis by blast
qed

subsection \<open>The example site\<close>

lemma site_fields:
  "playwright_start (crashing_site n cr) h = Inr 1"
  "new_context (crashing_site n cr) h x = Inr 3"
  "new_page (crashing_site n cr) h c = Inr 4"
  "set_default_timeout (crashing_site n cr) h ms = Inr ()"
  "page_close (crashing_site n cr) h x = Inr ()"
  "context_close (crashing_site n cr) h x = Inr ()"
  "browser_close (crashing_site n cr) h x = Inr ()"
  "playwright_stop (crashing_site n cr) h x = Inr ()"
  "goto (crashing_site n cr) h u w t = Inr ()"
  "wait_for_timeout (crashing_site n cr) h ms = Inr ()"
  "evaluate (crashing_site n cr) h s = Inr ()"
  "wait_for_selector (crashing_site n cr) h s v t = Inr ()"
  "query_selector_all (crashing_site n cr) h s = (if s = ''.job-card'' then Inr [0 ..< n] else Inr [])"
  "elem_query_selector (crashing_site n cr) h el s = Inr (Some el)"
  "inner_text (crashing_site n cr) h el = Inr '' Engineer ''"
  "get_attribute (crashing_site n cr) h el a = Inr (Some (''/jobs/'' @ replicate el (CHR ''a'')))"
  "query_selector (crashing_site n cr) h s = (if s = ''.description'' then Inr (Some 1000) else Inr None)"
  "sha256 (crashing_site n cr) = (\<lambda>s. of_nat (length s))"
  "urljoin (crashing_site n cr) = (\<lambda>b u. Inr (if startswith u ''http'' then u else ''https://example.com'' @ u))"
  "strip (crashing_site n cr) = ascii_strip"
  "chromium_launch (crashing_site n cr) h b =
     (case cr of None \<Rightarrow> Inr 2 | Some (k, msg) \<Rightarrow> if launches h = k then Inl (Error msg) else Inr 2)"
  by (simp_all add: crashing_site_def quiet_env_def)

lemma strip_engineer: "ascii_strip '' Engineer '' = ''Engineer''"
  by (simp add: ascii_strip_def is_ascii_space_def)

lemma demo_selectors_simps:
  "demo_selectors ''job_card'' = Some ''.job-card''"
  "demo_selectors ''job_title'' = Some ''.title''"
  "demo_selectors ''job_link'' = Some ''a''"
  "demo_selectors ''detail_description'' = Some ''.description''"
  "demo_selectors ''detail_title'' = None"
  "configured demo_selectors ''job_location'' = None"
  "configured demo_selectors ''job_team'' = None"
  "configured demo_selectors ''detail_team'' = None"
  "configured demo_selectors ''detail_location'' = None"
  "configured demo_selectors ''detail_type'' = None"
  by (simp_all add: demo_selectors_def configured_def)

lemma site_card:
  "extract_job_from_card (crashing_site n cr) k demo_selectors base h =
     (Inr (Some ((demo_listing k)\<lparr>search_category := None\<rparr>)),
      h @ [ElemQuerySelector k ''.title'', InnerText k, ElemQuerySelector k ''a'', GetAttribute k ''href''])"
  by (simp add: extract_job_from_card_def bind_apply perform_apply return_apply lookup_def
        card_text_def card_link_def optional_card_text_def demo_selectors_simps site_fields
        strip_engineer missing_def normalize_url_def startswith_def demo_listing_def demo_url_def
        quiet_env_def)


lemma launches_simps:
  "launches [] = 0"
  "launches (t @ t') = launches t + launches t'"
  "launches (ChromiumLaunch b # t) = Suc (launches t)"
  "launches (PlaywrightStart # t) = launches t"
  "launches (NewContext x # t) = launches t"
  "launches (NewPage x # t) = launches t"
  "launches (SetDefaultTimeout ms # t) = launches t"
  "launches (PageClose x # t) = launches t"
  "launches (ContextClose x # t) = launches t"
  "launches (BrowserClose x # t) = launches t"
  "launches (PlaywrightStop x # t) = launches t"
  "launches (Goto u w ms # t) = launches t"
  "launches (WaitForTimeout ms # t) = launches t"
  "launches (Evaluate sc # t) = launches t"
  "launches (WaitForSelector sel v ms # t) = launches t"
  "launches (QuerySelectorAll sel # t) = launches t"
  "launches (QuerySelector sel # t) = launches t"
  "launches (ElemQuerySelector el sel # t) = launches t"
  "launches (InnerText el # t) = launches t"
  "launches (GetAttribute el a # t) = launches t"
  by (simp_all add: launches_def)

lemma site_cards:
  "\<exists>t. extract_cards (crashing_site n cr) demo_selectors base els jobs h =
         (Inr (jobs @ map site_card els), h @ t) \<and> launches t = 0"
proof (induction els arbitrary: jobs h)
  case Nil
  show ?case by (simp add: return_apply launches_simps)
next
  case (Cons k els)
  let ?h1 = "h @ [ElemQuerySelector k ''.title'', InnerText k, ElemQuerySelector k ''a'', GetAttribute k ''href'']"
  from Cons [of "jobs @ [site_card k]" ?h1] obtain t where
    t: "extract_cards (crashing_site n cr) demo_selectors base els (jobs @ [site_card k]) ?h1 =
         (Inr ((jobs @ [site_card k]) @ map site_card els), ?h1 @ t)" "launches t = 0" by blast
  have "extract_cards (crashing_site n cr) demo_selectors base (k # els) jobs h =
      (Inr (jobs @ map site_card (k # els)),
       h @ ([ElemQuerySelector k ''.title'', InnerText k, ElemQuerySelector k ''a'', GetAttribute k ''href''] @ t))"
    using t(1) by (simp add: site_card site_card_def)
  moreover have "launches ([ElemQuerySelector k ''.title'', InnerText k, ElemQuerySelector k ''a'', GetAttribute k ''href''] @ t) = 0"
    using t(2) by (simp add: launches_simps)
  ultimately show ?case by blast
qed

lemma site_count_sequence: "count_sequence (crashing_site n cr) ''.job-card'' h [n, n]"
  by (auto simp: count_sequence_def site_fields nth_Cons split: nat.splits)

lemma site_scroll:
  assumes "0 < n"
  shows "infinite_scroll (crashing_site n cr) st ''.job-card'' 20 h =
     (Inr n, h @ iteration_calls st ''.job-card'' @ iteration_calls st ''.job-card'')"
proof -
  let ?ev = "crashing_site n cr" and ?it = "iteration_calls st ''.job-card''"
  have c1: "count_sequence ?ev ''.job-card'' (h @ ?it) [n]"
    by (rule count_sequence_step [OF site_count_sequence])
  have "infinite_scroll_loop ?ev st ''.job-card'' 20 0 0 h =
      infinite_scroll_loop ?ev st ''.job-card'' 20 n 1 (h @ ?it)"
    using loop_step [where sc = 0 and mx = 20 and st = st and prev = 0,
        OF site_count_sequence [of n cr h]] assms by simp
  also have "\<dots> = (Inr (n, 1), (h @ ?it) @ ?it)"
    using loop_step [where sc = 1 and mx = 20 and st = st and prev = n, OF c1] by simp
  finally show ?thesis by (simp add: infinite_scroll_def bind_apply return_apply)
qed

lemma launches_iteration: "launches (iteration_calls st sel) = 0"
  by (simp add: iteration_calls_def launches_simps)

lemma site_discover:
  assumes "0 < n"
  shows "\<exists>t. discover_jobs (crashing_site n cr) st u demo_selectors h =
         (Inr (map site_card [0..<n]), h @ t) \<and> launches t = 0"
proof -
  let ?ev = "crashing_site n cr" and ?it = "iteration_calls st ''.job-card''"
  let ?h4 = "h @ [Goto u ''domcontentloaded'' 60000, WaitForTimeout 3000,
               WaitForSelector ''.job-card'' None 10000] @ ?it @ ?it @ [QuerySelectorAll ''.job-card'']"
  from site_cards [of n cr u "[0..<n]" "[]" ?h4] obtain t where
    t: "extract_cards ?ev demo_selectors u [0..<n] [] ?h4 = (Inr (map site_card [0..<n]), ?h4 @ t)"
       "launches t = 0" by auto
  have "discover_jobs ?ev st u demo_selectors h = (Inr (map site_card [0..<n]), ?h4 @ t)"
    using t(1) site_scroll [OF assms, of cr st]
    by (simp add: discover_jobs_def try_except_def discover_body_def bind_apply perform_apply
          lookup_def return_apply demo_selectors_simps site_fields)
  moreover have "launches ([Goto u ''domcontentloaded'' 60000, WaitForTimeout 3000,
               WaitForSelector ''.job-card'' None 10000] @ ?it @ ?it @ [QuerySelectorAll ''.job-card''] @ t) = 0"
    using t(2) by (simp add: launches_simps launches_iteration)
  ultimately show ?thesis by (intro exI conjI) (assumption | simp)+
qed


lemma site_start:
  assumes "will_launch cr h"
  shows "start (crashing_site n cr) st new_manager h =
    ((None, full_manager),
     h @ [PlaywrightStart, ChromiumLaunch (scraper_headless st), NewContext 2, NewPage 3,
          SetDefaultTimeout (scraper_timeout st)])"
  using assms
  by (auto simp: start_def perform_apply site_fields new_manager_def full_manager_def Let_def
        will_launch_def launches_simps split: option.splits)

lemma site_start_crash:
  assumes "launches h = k"
  shows "start (crashing_site n (Some (k, msg))) st new_manager h =
    ((Some (Error msg), new_manager\<lparr>m_playwright := Some 1\<rparr>),
     h @ [PlaywrightStart, ChromiumLaunch (scraper_headless st)])"
  using assms
  by (simp add: start_def perform_apply site_fields Let_def launches_simps)

lemma site_close:
  "close (crashing_site n cr) full_manager h =
     (Inr (), h @ [PageClose 4, ContextClose 3, BrowserClose 2, PlaywrightStop 1])"
  by (simp add: close_def close_if_def bind_apply perform_apply site_fields full_manager_def)

lemma site_with_browser:
  assumes "will_launch cr h"
    and "block full_manager
           (h @ [PlaywrightStart, ChromiumLaunch (scraper_headless st), NewContext 2, NewPage 3,
                 SetDefaultTimeout (scraper_timeout st)]) =
         (r, (h @ [PlaywrightStart, ChromiumLaunch (scraper_headless st), NewContext 2, NewPage 3,
                 SetDefaultTimeout (scraper_timeout st)]) @ t)"
    and "launches t = 0"
  shows "\<exists>t'. with_browser (crashing_site n cr) st block h = (r, h @ t') \<and> launches t' = 1"
proof -
  let ?s = "[PlaywrightStart, ChromiumLaunch (scraper_headless st), NewContext 2, NewPage 3,
                 SetDefaultTimeout (scraper_timeout st)]"
  let ?c = "[PageClose 4, ContextClose 3, BrowserClose 2, PlaywrightStop 1]"
  have "with_browser (crashing_site n cr) st block h = (r, h @ (?s @ t @ ?c))"
    using assms(2) by (simp add: with_browser_def site_start [OF assms(1)] site_close)
  moreover have "launches (?s @ t @ ?c) = 1"
    using assms(3) by (simp add: launches_simps)
  ultimately show ?thesis by blast
qed

lemma site_with_browser_crash:
  assumes "launches h = k"
  shows "with_browser (crashing_site n (Some (k, msg))) st block h =
     (Inl (Error msg), h @ [PlaywrightStart, ChromiumLaunch (scraper_headless st)])"
  by (simp add: with_browser_def site_start_crash [OF assms])

lemma take_bit_small: "a < 2 ^ 256 \<Longrightarrow> take_bit 256 (a::nat) = a"
  by (simp add: take_bit_nat_eq_self)

lemma demo_hash_inj:
  assumes "i < 1000" "j < 1000"
  shows "(url_hash (demo_listing i) = url_hash (demo_listing j)) = (i = j)"
proof -
  have "(2::nat) ^ 256 > 2000" by simp
  with assms have a: "i < (2::nat) ^ 256" "j < (2::nat) ^ 256" by simp_all
  have "(word_of_nat i = (word_of_nat j :: 256 word)) = (i = j)"
    using a by (simp add: word_of_nat_eq_iff take_bit_small)
  then show ?thesis
    by (simp add: demo_listing_def generate_url_hash_eq quiet_env_def demo_url_def)
qed


lemma add_category_jobs_append:
  "add_category_jobs c (xs @ ys) d = add_category_jobs c ys (add_category_jobs c xs d)"
  by (induction xs arbitrary: d) simp_all

lemma site_merge_first:
  "n \<le> 1000 \<Longrightarrow> add_category_jobs c (map site_card [0..<n]) [] = map (site_entry c) [0..<n]"
proof (induction n)
  case 0
  show ?case by simp
next
  case (Suc n)
  then have n: "n < 1000" and ih: "add_category_jobs c (map site_card [0..<n]) [] = map (site_entry c) [0..<n]"
    by simp_all
  have fresh: "url_hash (site_card n) \<notin> fst ` set (map (site_entry c) [0..<n])"
    using n by (auto simp: site_entry_def site_card_def demo_hash_inj)
  have "add_category_jobs c (map site_card [0..<Suc n]) [] =
      add_listing c (site_card n) (map (site_entry c) [0..<n])"
    by (simp add: add_category_jobs_append ih)
  also have "\<dots> = map (site_entry c) [0..<n] @ [site_entry c n]"
    using fresh by (simp add: add_listing_def) (simp add: site_entry_def site_card_def)
  finally show ?case by simp
qed

lemma add_category_jobs_known:
  "\<forall>j \<in> set jobs. url_hash j \<in> fst ` set d \<Longrightarrow> add_category_jobs c jobs d = d"
  by (induction jobs) (simp_all add: add_listing_def)

lemma site_merge_again:
  "add_category_jobs c (map site_card [0..<n]) (map (site_entry c0) [0..<n]) = map (site_entry c0) [0..<n]"
  by (rule add_category_jobs_known) (force simp: site_entry_def site_card_def)

lemma site_categories_again:
  assumes "0 < n"
  shows "\<exists>t. discover_categories (crashing_site n cr) st demo_company cats (map (site_entry c0) [0..<n]) h =
         (Inr (map (site_entry c0) [0..<n]), h @ t) \<and> launches t = 0"
proof (induction cats arbitrary: h)
  case Nil
  show ?case by (simp add: return_apply launches_simps)
next
  case (Cons c cats)
  from site_discover [OF assms, of cr st "search_url_of demo_company c" h] obtain t1 where
    t1: "discover_jobs (crashing_site n cr) st (search_url_of demo_company c) demo_selectors h =
         (Inr (map site_card [0..<n]), h @ t1)" "launches t1 = 0" by blast
  from Cons [of "h @ t1"] obtain t2 where
    t2: "discover_categories (crashing_site n cr) st demo_company cats (map (site_entry c0) [0..<n]) (h @ t1) =
         (Inr (map (site_entry c0) [0..<n]), (h @ t1) @ t2)" "launches t2 = 0" by blast
  have "discover_categories (crashing_site n cr) st demo_company (c # cats) (map (site_entry c0) [0..<n]) h =
         (Inr (map (site_entry c0) [0..<n]), h @ (t1 @ t2))"
    using t1(1) t2(1) by (simp add: bind_apply demo_company_def site_merge_again)
  moreover have "launches (t1 @ t2) = 0" using t1(2) t2(2) by (simp add: launches_simps)
  ultimately show ?case by blast
qed

lemma site_discover_all:
  assumes "0 < n" "n \<le> 1000" "will_launch cr h"
  shows "\<exists>t. discover_all_jobs_for_company (crashing_site n cr) st demo_company
              (''Backend Engineer'' # cats) h =
         (Inr (map demo_listing [0..<n]), h @ t) \<and> launches t = 1"
proof -
  let ?ev = "crashing_site n cr" and ?c = "''Backend Engineer''"
  let ?h1 = "h @ [PlaywrightStart, ChromiumLaunch (scraper_headless st), NewContext 2, NewPage 3,
                 SetDefaultTimeout (scraper_timeout st)]"
  from site_discover [OF assms(1), of cr st "search_url_of demo_company ?c" ?h1] obtain t1 where
    t1: "discover_jobs ?ev st (search_url_of demo_company ?c) demo_selectors ?h1 =
         (Inr (map site_card [0..<n]), ?h1 @ t1)" "launches t1 = 0" by blast
  from site_categories_again [OF assms(1), of cr st cats ?c "?h1 @ t1"] obtain t2 where
    t2: "discover_categories ?ev st demo_company cats (map (site_entry ?c) [0..<n]) (?h1 @ t1) =
         (Inr (map (site_entry ?c) [0..<n]), (?h1 @ t1) @ t2)" "launches t2 = 0" by blast
  have e: "map snd (map (site_entry ?c) [0..<n]) = map demo_listing [0..<n]"
    by (simp add: site_entry_def demo_listing_def comp_def)
  have "bind (discover_categories ?ev st demo_company (?c # cats) [])
           (\<lambda>all_jobs. return (map snd all_jobs)) ?h1 =
         (Inr (map demo_listing [0..<n]), ?h1 @ (t1 @ t2))"
    using t1(1) t2(1) e
    by (simp add: bind_apply return_apply demo_company_def site_merge_first [OF assms(2)])
  moreover have "launches (t1 @ t2) = 0" using t1(2) t2(2) by (simp add: launches_simps)
  ultimately show ?thesis
    unfolding discover_all_jobs_for_company_def
    by (rule site_with_browser [OF assms(3)])
qed

subsection \<open>Examples of the merge\<close>

theorem merged_listings_first_seen_witness:
  "fst (discover_all_jobs_for_company (demo_site 2) default_settings demo_company
          [''Backend Engineer'', ''Full Stack Engineer''] []) =
     Inr [demo_listing 0, demo_listing 1] \<and>
   distinct (map url_hash [demo_listing 0, demo_listing 1]) \<and>
   map search_category [demo_listing 0, demo_listing 1] =
     [Some ''Backend Engineer'', Some ''Backend Engineer'']"
proof -
  have w: "will_launch None []" by (simp add: will_launch_def)
  have u: "[0..<2] = [0, Suc 0]" by (simp add: numeral_2_eq_2)
  from site_discover_all [of 2 None "[]" default_settings "[''Full Stack Engineer'']", OF _ _ w]
  obtain t where "discover_all_jobs_for_company (crashing_site 2 None) default_settings demo_company
      [''Backend Engineer'', ''Full Stack Engineer''] [] = (Inr (map demo_listing [0..<2]), [] @ t)"
    by auto
  then have e: "fst (discover_all_jobs_for_company (demo_site 2) default_settings demo_company
          [''Backend Engineer'', ''Full Stack Engineer''] []) = Inr [demo_listing 0, demo_listing 1]"
    by (simp add: demo_site_def u)
  from merged_listings_first_seen [OF e]
  have d: "distinct (map url_hash [demo_listing 0, demo_listing 1])" by blast
  have c: "map search_category [demo_listing 0, demo_listing 1] =
     [Some ''Backend Engineer'', Some ''Backend Engineer'']"
    by (simp add: demo_listing_def)
  from e d c show ?thesis by blast
qed

subsection \<open>Listing discovery\<close>

lemma try_except_apply:
  "try_except m handler h = (case m h of (Inl e, h') \<Rightarrow> handler e h' | (Inr x, h') \<Rightarrow> (Inr x, h'))"
  by (simp add: try_except_def)

lemma scrolls_performed_page_calls:
  "scrolls_performed (h @ [Goto u w t]) = scrolls_performed h"
  "scrolls_performed (h @ [WaitForTimeout ms]) = scrolls_performed h"
  "scrolls_performed (h @ [WaitForSelector s v t]) = scrolls_performed h"
  by (simp_all add: scrolls_performed_def)

lemma no_card_discover:
  assumes "no_card_appears ev sels"
  shows "fst (discover_jobs ev st u sels h) = Inr [] \<and>
         scrolls_performed (snd (discover_jobs ev st u sels h)) = scrolls_performed h"
proof (cases "sels ''job_card''")
  case None
  then show ?thesis
    by (auto simp: discover_jobs_def try_except_apply discover_body_def bind_apply perform_apply
          lookup_def raise_apply return_apply scrolls_performed_def split: sum.splits)
next
  case (Some s)
  with assms have w: "\<And>h'. \<exists>e. wait_for_selector ev h' s None 10000 = Inl e"
    by (simp add: no_card_appears_def)
  obtain e where e: "wait_for_selector ev
      (h @ [Goto u ''domcontentloaded'' 60000, WaitForTimeout 3000]) s None 10000 = Inl e"
    using w by blast
  show ?thesis
    using Some e
    by (auto simp: discover_jobs_def try_except_apply discover_body_def bind_apply perform_apply
          lookup_def raise_apply return_apply scrolls_performed_def split: sum.splits)
qed








text \<open>
  Claim C6. On every search page on which no element matching the card selector appears
  within the wait (the wait for the selector raises), \<open>discover_jobs\<close> returns the empty
  list and raises nothing; it does not even scroll.
\<close>

theorem no_cards_gives_empty_list:
  assumes "no_card_appears ev sels"
  shows "fst (discover_jobs ev st u sels h) = Inr [] \<and>
         scrolls_performed (snd (discover_jobs ev st u sels h)) = scrolls_performed h"
  using assms by (rule no_card_discover)

theorem no_cards_gives_empty_list_witness:
  "fst (discover_jobs timeout_page default_settings
          ''https://example.com/search?q=Backend+Engineer'' demo_selectors []) = Inr []"
proof -
  have "no_card_appears timeout_page demo_selectors"
    by (simp add: no_card_appears_def timeout_page_def)
  from no_cards_gives_empty_list [OF this] show ?thesis by blast
qed





subsection \<open>A page with a card that raises\<close>








subsection \<open>A page whose count raises during the scroll\<close>






subsection \<open>Detail extraction: retries\<close>

lemma current_page_append:
  "current_page (h @ t) = (case current_page t of Some u \<Rightarrow> Some u | None \<Rightarrow> current_page h)"
  by (induction h) (auto split: option.splits)

lemma navigations_append: "navigations u (a @ b) = navigations u a + navigations u b"
  by (simp add: navigations_def)

lemma attempt_fails:
  assumes ne: "never_exposes ev sels (url jd)" and wr: "waits_return ev"
  shows "(\<exists>e. fst (attempt_extract ev jd cid sels h) = Inl e) \<and>
         navigations (url jd) (snd (attempt_extract ev jd cid sels h)) = Suc (navigations (url jd) h)"
proof -
  let ?h4 = "h @ [Goto (url jd) ''networkidle'' 60000, WaitForTimeout 3000, Evaluate scroll_js,
                  WaitForTimeout 2000]"
  have w: "\<And>h ms. wait_for_timeout ev h ms = Inr ()" using wr by (simp add: waits_return_def)
  have cp: "current_page ?h4 = Some (url jd)" by (simp add: current_page_append)
  show ?thesis
  proof (cases "sels ''detail_description''")
    case None
    then show ?thesis
      by (auto simp: attempt_extract_def bind_apply perform_apply lookup_def raise_apply w
            navigations_def split: sum.splits)
  next
    case (Some s)
    with ne cp obtain e where "wait_for_selector ev ?h4 s (Some ''visible'') 15000 = Inl e"
      unfolding never_exposes_def by blast
    with Some show ?thesis
      by (auto simp: attempt_extract_def bind_apply perform_apply lookup_def return_apply w
            navigations_def split: sum.splits)
  qed
qed

lemma loop_exhausts:
  assumes ne: "never_exposes ev sels (url jd)" and wr: "waits_return ev"
  shows "attempt < n \<Longrightarrow>
     extract_loop ev jd cid sels n attempt h =
       (Inr None, after_attempts ev jd cid sels (n - attempt) h)"
proof (induction "n - attempt" arbitrary: attempt h)
  case 0
  then show ?case by simp
next
  case (Suc k)
  from attempt_fails [OF ne wr, of cid h] obtain e h1 where
    a: "attempt_extract ev jd cid sels h = (Inl e, h1)"
    by (cases "attempt_extract ev jd cid sels h") auto
  have w: "wait_for_timeout ev h1 2000 = Inr ()" using wr by (simp add: waits_return_def)
  show ?case
  proof (cases "attempt < n - 1")
    case True
    then have lt: "Suc attempt < n" by simp
    have k: "k = n - Suc attempt" using Suc.hyps(2) by simp
    from Suc.hyps(1) [OF k lt, of "h1 @ [WaitForTimeout 2000]"]
    have ih: "extract_loop ev jd cid sels n (Suc attempt) (h1 @ [WaitForTimeout 2000]) =
       (Inr None, after_attempts ev jd cid sels (n - Suc attempt) (h1 @ [WaitForTimeout 2000]))" .
    obtain m where m: "n - attempt = Suc (Suc m)" "n - Suc attempt = Suc m"
      using lt by (metis Suc_diff_Suc Suc.prems)
    show ?thesis
      using True Suc.prems
      by (subst extract_loop.simps) (simp add: a perform_apply w ih m)
  next
    case False
    with Suc.prems have "n - attempt = Suc 0" by simp
    with False Suc.prems show ?thesis
      by (subst extract_loop.simps) (simp add: a)
  qed
qed

lemma details_exhaust:
  assumes ne: "never_exposes ev sels (url jd)" and wr: "waits_return ev"
  shows "extract_job_details ev jd cid sels n h = (Inr None, after_attempts ev jd cid sels n h)"
proof (cases n)
  case 0
  then show ?thesis by (simp add: extract_job_details_def extract_loop.simps)
next
  case (Suc m)
  then show ?thesis
    using loop_exhausts [OF ne wr, of 0 n cid h] by (simp add: extract_job_details_def)
qed

lemma after_attempts_navigations:
  assumes ne: "never_exposes ev sels (url jd)" and wr: "waits_return ev"
  shows "navigations (url jd) (after_attempts ev jd cid sels n h) = navigations (url jd) h + n"
proof (induction n arbitrary: h)
  case 0
  show ?case by simp
next
  case (Suc n)
  note f = attempt_fails [OF ne wr, of cid h]
  show ?case
  proof (cases n)
    case 0
    with f show ?thesis by simp
  next
    case (Suc k)
    from Suc.IH [of "snd (attempt_extract ev jd cid sels h) @ [WaitForTimeout 2000]"] f
    show ?thesis by (simp add: Suc navigations_append) (simp add: navigations_def)
  qed
qed


lemma batch_continues:
  assumes ne: "never_exposes ev sels (url jd)" and wr: "waits_return ev"
  shows "extract_batch ev st cid sels (jd # rest) acc h =
     (if rest = [] then (Inr acc, after_attempts ev jd cid sels 3 h)
      else extract_batch ev st cid sels rest acc
             (after_attempts ev jd cid sels 3 h @ [WaitForTimeout (scraper_scroll_pause st * 1000)]))"
proof -
  have w: "\<And>h ms. wait_for_timeout ev h ms = Inr ()" using wr by (simp add: waits_return_def)
  show ?thesis
    by (simp add: bind_apply details_exhaust [OF ne wr] perform_apply w return_apply
          del: after_attempts.simps)
qed

text \<open>
  Retry exhaustion when every pause returns. For every listing whose detail page never
  exposes the description selector, on a browser whose pauses are mere delays that return,
  \<open>extract_job_details\<close> with \<open>max_retries = n\<close> makes exactly \<open>n\<close> attempts, each a fresh
  navigation to the listing, with the two-second backoff between one attempt and the next
  and none after the last, and then returns \<open>None\<close> without raising; for \<open>n = 3\<close> these are
  three attempts and two backoffs. In the loop over the batch the listing adds no job and
  raises nothing, and the loop goes on with the next listing after the politeness delay.
\<close>

theorem exhausted_retries_yield_none:
  assumes "never_exposes ev sels (url jd)" and "waits_return ev"
  shows "extract_job_details ev jd cid sels n h = (Inr None, after_attempts ev jd cid sels n h) \<and>
     navigations (url jd) (after_attempts ev jd cid sels n h) = navigations (url jd) h + n \<and>
     extract_batch ev st cid sels (jd # rest) acc h =
       (if rest = [] then (Inr acc, after_attempts ev jd cid sels 3 h)
        else extract_batch ev st cid sels rest acc
               (after_attempts ev jd cid sels 3 h @
                [WaitForTimeout (scraper_scroll_pause st * 1000)]))"
  using details_exhaust [OF assms] after_attempts_navigations [OF assms] batch_continues [OF assms]
  by blast

lemma hidden_attempt:
  "attempt_extract hidden_site jd cid demo_selectors h =
     (Inl (Error ''Timeout 15000ms exceeded''),
      h @ [Goto (url jd) ''networkidle'' 60000, WaitForTimeout 3000, Evaluate scroll_js,
           WaitForTimeout 2000, WaitForSelector ''.description'' (Some ''visible'') 15000])"
  by (simp add: attempt_extract_def bind_apply perform_apply lookup_def return_apply
        demo_selectors_simps hidden_site_def demo_site_def crashing_site_def quiet_env_def)

theorem exhausted_retries_yield_none_witness:
  "extract_job_details hidden_site (demo_listing 0) 1 demo_selectors 3 [] =
     (Inr None,
      [Goto (demo_url 0) ''networkidle'' 60000, WaitForTimeout 3000, Evaluate scroll_js,
       WaitForTimeout 2000, WaitForSelector ''.description'' (Some ''visible'') 15000,
       WaitForTimeout 2000,
       Goto (demo_url 0) ''networkidle'' 60000, WaitForTimeout 3000, Evaluate scroll_js,
       WaitForTimeout 2000, WaitForSelector ''.description'' (Some ''visible'') 15000,
       WaitForTimeout 2000,
       Goto (demo_url 0) ''networkidle'' 60000, WaitForTimeout 3000, Evaluate scroll_js,
       WaitForTimeout 2000, WaitForSelector ''.description'' (Some ''visible'') 15000]) \<and>
   navigations (demo_url 0)
     (snd (extract_job_details hidden_site (demo_listing 0) 1 demo_selectors 3 [])) = 3 \<and>
   fst (extract_batch hidden_site default_settings 1 demo_selectors [demo_listing 0] [] []) = Inr []"
proof -
  have ne: "never_exposes hidden_site demo_selectors (url (demo_listing 0))"
    by (simp add: never_exposes_def hidden_site_def)
  have wr: "waits_return hidden_site"
    by (simp add: waits_return_def hidden_site_def demo_site_def crashing_site_def quiet_env_def)
  have u: "url (demo_listing 0) = demo_url 0" by (simp add: demo_listing_def)
  have a: "after_attempts hidden_site (demo_listing 0) 1 demo_selectors 3 [] =
     [Goto (demo_url 0) ''networkidle'' 60000, WaitForTimeout 3000, Evaluate scroll_js,
       WaitForTimeout 2000, WaitForSelector ''.description'' (Some ''visible'') 15000,
       WaitForTimeout 2000,
       Goto (demo_url 0) ''networkidle'' 60000, WaitForTimeout 3000, Evaluate scroll_js,
       WaitForTimeout 2000, WaitForSelector ''.description'' (Some ''visible'') 15000,
       WaitForTimeout 2000,
       Goto (demo_url 0) ''networkidle'' 60000, WaitForTimeout 3000, Evaluate scroll_js,
       WaitForTimeout 2000, WaitForSelector ''.description'' (Some ''visible'') 15000]"
    by (simp add: numeral_3_eq_3 hidden_attempt u)
  note t = exhausted_retries_yield_none [OF ne wr, of 1 3 "[]" default_settings "[]" "[]"]
  from t have 1: "extract_job_details hidden_site (demo_listing 0) 1 demo_selectors 3 [] =
      (Inr None, after_attempts hidden_site (demo_listing 0) 1 demo_selectors 3 [])" by blast
  from t have 2: "navigations (url (demo_listing 0))
      (after_attempts hidden_site (demo_listing 0) 1 demo_selectors 3 []) =
      navigations (url (demo_listing 0)) [] + 3" by blast
  from t have 3: "extract_batch hidden_site default_settings 1 demo_selectors [demo_listing 0] [] [] =
      (Inr [], after_attempts hidden_site (demo_listing 0) 1 demo_selectors 3 [])" by simp
  have n0: "navigations (demo_url 0) [] = 0" by (simp add: navigations_def)
  from 1 2 3 show ?thesis
    unfolding u a n0 by simp
qed

subsection \<open>Detail extraction: a backoff pause that raises\<close>

text \<open>
  The backoff pause stands in the \<open>except\<close> handler of the retry loop, outside any \<open>try\<close>: a
  raise of that pause leaves \<open>extract_job_details\<close> after the failed attempt.
\<close>

lemma backoff_raise_leaves:
  assumes "attempt_extract ev jd cid sels h = (Inl e, h1)"
    and "wait_for_timeout ev h1 2000 = Inl e'" and "1 < n"
  shows "extract_job_details ev jd cid sels n h = (Inl e', h1 @ [WaitForTimeout 2000])"
  using assms unfolding extract_job_details_def
  by (subst extract_loop.simps) (simp add: perform_apply)

lemma dying_fields:
  "goto dying_site h u w t = Inr ()"
  "evaluate dying_site h s = Inr ()"
  "wait_for_selector dying_site h s v t =
     (if v = Some ''visible'' then Inl (Error ''Timeout 15000ms exceeded'') else Inr ())"
  "wait_for_timeout dying_site h ms =
     (if h \<noteq> [] \<and> last h = WaitForSelector ''.description'' (Some ''visible'') 15000
      then Inl (Error ''Target page, context or browser has been closed'')
      else Inr ())"
  "playwright_start dying_site h = Inr 1"
  "chromium_launch dying_site h b = Inr 2"
  "new_context dying_site h x = Inr 3"
  "new_page dying_site h x = Inr 4"
  "set_default_timeout dying_site h ms = Inr ()"
  "page_close dying_site h x = Inr ()"
  "context_close dying_site h x = Inr ()"
  "browser_close dying_site h x = Inr ()"
  "playwright_stop dying_site h x = Inr ()"
  by (simp_all add: dying_site_def hidden_site_def demo_site_def crashing_site_def quiet_env_def)

lemma dying_attempt:
  "attempt_extract dying_site jd cid demo_selectors h =
     (Inl (Error ''Timeout 15000ms exceeded''),
      h @ [Goto (url jd) ''networkidle'' 60000, WaitForTimeout 3000, Evaluate scroll_js,
           WaitForTimeout 2000, WaitForSelector ''.description'' (Some ''visible'') 15000])"
  by (simp add: attempt_extract_def bind_apply perform_apply lookup_def return_apply
        demo_selectors_simps dying_fields)

lemma dying_details:
  "extract_job_details dying_site jd cid demo_selectors 3 h =
     (Inl (Error ''Target page, context or browser has been closed''),
      h @ [Goto (url jd) ''networkidle'' 60000, WaitForTimeout 3000, Evaluate scroll_js,
           WaitForTimeout 2000, WaitForSelector ''.description'' (Some ''visible'') 15000,
           WaitForTimeout 2000])"
  by (rule backoff_raise_leaves [OF dying_attempt, simplified append_assoc append_Cons append_Nil])
     (simp_all add: dying_fields)

text \<open>
  Claim C5, at a listing on which it fails. On the site whose detail pages never expose the
  description selector and whose page dies while the description is awaited,
  \<open>extract_job_details\<close> with \<open>max_retries = 3\<close> makes one attempt (one navigation to the
  listing), and the backoff pause that follows raises: the function raises instead of
  returning \<open>None\<close>. The loop over the batch has no handler, so the exception leaves
  \<open>extract_batch\<close> and \<open>extract_multiple_jobs\<close>; the next listing of the batch is never
  visited.
\<close>

theorem backoff_raise_aborts_batch:
  "(\<forall>h. wait_for_selector dying_site h ''.description'' (Some ''visible'') 15000 =
        Inl (Error ''Timeout 15000ms exceeded'')) \<and>
   extract_job_details dying_site (demo_listing 0) 1 demo_selectors 3 [] =
     (Inl (Error ''Target page, context or browser has been closed''),
      [Goto (demo_url 0) ''networkidle'' 60000, WaitForTimeout 3000, Evaluate scroll_js,
       WaitForTimeout 2000, WaitForSelector ''.description'' (Some ''visible'') 15000,
       WaitForTimeout 2000]) \<and>
   navigations (demo_url 0)
     (snd (extract_job_details dying_site (demo_listing 0) 1 demo_selectors 3 [])) = 1 \<and>
   fst (extract_batch dying_site default_settings 1 demo_selectors
          [demo_listing 0, demo_listing 1] [] []) =
     Inl (Error ''Target page, context or browser has been closed'') \<and>
   navigations (demo_url 1)
     (snd (extract_batch dying_site default_settings 1 demo_selectors
          [demo_listing 0, demo_listing 1] [] [])) = 0 \<and>
   extract_multiple_jobs dying_site default_settings [demo_listing 0, demo_listing 1] 1
       demo_selectors 20 [] =
     (Inl (Error ''Target page, context or browser has been closed''),
      [PlaywrightStart, ChromiumLaunch True, NewContext 2, NewPage 3, SetDefaultTimeout 30000,
       Goto (demo_url 0) ''networkidle'' 60000, WaitForTimeout 3000, Evaluate scroll_js,
       WaitForTimeout 2000, WaitForSelector ''.description'' (Some ''visible'') 15000,
       WaitForTimeout 2000,
       PageClose 4, ContextClose 3, BrowserClose 2, PlaywrightStop 1])"
proof -
  have u: "url (demo_listing 0) = demo_url 0" by (simp add: demo_listing_def)
  have w: "\<forall>h. wait_for_selector dying_site h ''.description'' (Some ''visible'') 15000 =
        Inl (Error ''Timeout 15000ms exceeded'')"
    by (simp add: dying_fields)
  have d: "extract_job_details dying_site (demo_listing 0) 1 demo_selectors 3 [] =
     (Inl (Error ''Target page, context or browser has been closed''),
      [Goto (demo_url 0) ''networkidle'' 60000, WaitForTimeout 3000, Evaluate scroll_js,
       WaitForTimeout 2000, WaitForSelector ''.description'' (Some ''visible'') 15000,
       WaitForTimeout 2000])"
    using dying_details [of "demo_listing 0" 1 "[]"] by (simp add: u)
  have n: "navigations (demo_url 0)
     (snd (extract_job_details dying_site (demo_listing 0) 1 demo_selectors 3 [])) = 1"
    unfolding d by (simp add: navigations_def)
  have b: "extract_batch dying_site default_settings 1 demo_selectors
          [demo_listing 0, demo_listing 1] [] h =
     (Inl (Error ''Target page, context or browser has been closed''),
      h @ [Goto (demo_url 0) ''networkidle'' 60000, WaitForTimeout 3000, Evaluate scroll_js,
       WaitForTimeout 2000, WaitForSelector ''.description'' (Some ''visible'') 15000,
       WaitForTimeout 2000])" for h
    by (simp add: bind_apply dying_details u)
  have b1: "fst (extract_batch dying_site default_settings 1 demo_selectors
          [demo_listing 0, demo_listing 1] [] []) =
     Inl (Error ''Target page, context or browser has been closed'')"
    by (simp only: b fst_conv)
  have e: "demo_url 1 \<noteq> demo_url 0" by (simp add: demo_url_def)
  have b2: "navigations (demo_url 1)
     (snd (extract_batch dying_site default_settings 1 demo_selectors
          [demo_listing 0, demo_listing 1] [] [])) = 0"
    unfolding b using e by (simp add: navigations_def)
  have r: "range_starts (length [demo_listing 0, demo_listing 1]) 20 = [0]"
    by (simp add: range_starts_def)
  have sl: "slice [demo_listing 0, demo_listing 1] 0 (0 + 20) = [demo_listing 0, demo_listing 1]"
    by (simp add: slice_def)
  have st: "start dying_site default_settings new_manager [] =
      ((None, full_manager),
       [PlaywrightStart, ChromiumLaunch True, NewContext 2, NewPage 3, SetDefaultTimeout 30000])"
    by (simp add: start_def perform_apply dying_fields new_manager_def full_manager_def Let_def
          default_settings_def)
  have cl: "close dying_site full_manager h =
      (Inr (), h @ [PageClose 4, ContextClose 3, BrowserClose 2, PlaywrightStop 1])" for h
    by (simp add: close_def close_if_def full_manager_def bind_apply perform_apply dying_fields)
  have wb: "with_browser dying_site default_settings
        (\<lambda>browser. extract_batch dying_site default_settings 1 demo_selectors
            [demo_listing 0, demo_listing 1] []) [] =
     (Inl (Error ''Target page, context or browser has been closed''),
      [PlaywrightStart, ChromiumLaunch True, NewContext 2, NewPage 3, SetDefaultTimeout 30000,
       Goto (demo_url 0) ''networkidle'' 60000, WaitForTimeout 3000, Evaluate scroll_js,
       WaitForTimeout 2000, WaitForSelector ''.description'' (Some ''visible'') 15000,
       WaitForTimeout 2000,
       PageClose 4, ContextClose 3, BrowserClose 2, PlaywrightStop 1])"
    unfolding with_browser_def st prod.case option.case b cl sum.case by simp
  have z: "((20::nat) = 0) = False" by simp
  have m: "extract_multiple_jobs dying_site default_settings [demo_listing 0, demo_listing 1] 1
       demo_selectors 20 [] =
     (Inl (Error ''Target page, context or browser has been closed''),
      [PlaywrightStart, ChromiumLaunch True, NewContext 2, NewPage 3, SetDefaultTimeout 30000,
       Goto (demo_url 0) ''networkidle'' 60000, WaitForTimeout 3000, Evaluate scroll_js,
       WaitForTimeout 2000, WaitForSelector ''.description'' (Some ''visible'') 15000,
       WaitForTimeout 2000,
       PageClose 4, ContextClose 3, BrowserClose 2, PlaywrightStop 1])"
    unfolding extract_multiple_jobs_def r
    by (simp only: z if_False extract_batches.simps sl bind_apply wb prod.case sum.case)
  from w d n b1 b2 m show ?thesis by (intro conjI)
qed


subsection \<open>Detail extraction on the example site\<close>

lemma detail_visits_simps:
  "detail_visits [] = []"
  "detail_visits (a @ b) = detail_visits a @ detail_visits b"
  "detail_visits (Goto u ''networkidle'' 60000 # t) = u # detail_visits t"
  "detail_visits (PlaywrightStart # t) = detail_visits t"
  "detail_visits (ChromiumLaunch hl # t) = detail_visits t"
  "detail_visits (NewContext x # t) = detail_visits t"
  "detail_visits (NewPage x # t) = detail_visits t"
  "detail_visits (SetDefaultTimeout ms # t) = detail_visits t"
  "detail_visits (PageClose x # t) = detail_visits t"
  "detail_visits (ContextClose x # t) = detail_visits t"
  "detail_visits (BrowserClose x # t) = detail_visits t"
  "detail_visits (PlaywrightStop x # t) = detail_visits t"
  "detail_visits (WaitForTimeout ms # t) = detail_visits t"
  "detail_visits (Evaluate js # t) = detail_visits t"
  "detail_visits (WaitForSelector sel v ms # t) = detail_visits t"
  "detail_visits (QuerySelectorAll sel # t) = detail_visits t"
  "detail_visits (QuerySelector sel # t) = detail_visits t"
  "detail_visits (ElemQuerySelector el sel # t) = detail_visits t"
  "detail_visits (InnerText el # t) = detail_visits t"
  "detail_visits (GetAttribute el at # t) = detail_visits t"
  by (simp_all add: detail_visits_def)

lemma site_page_fields:
  "goto (crashing_site n cr) h u w t = Inr ()"
  "wait_for_timeout (crashing_site n cr) h ms = Inr ()"
  "evaluate (crashing_site n cr) h s = Inr ()"
  "wait_for_selector (crashing_site n cr) h s v t = Inr ()"
  "query_selector (crashing_site n cr) h s = (if s = ''.description'' then Inr (Some 1000) else Inr None)"
  "inner_text (crashing_site n cr) h el = Inr '' Engineer ''"
  "strip (crashing_site n cr) = ascii_strip"
  by (simp_all add: crashing_site_def quiet_env_def)

lemma site_extract_fields:
  "extract_fields (crashing_site n cr) demo_selectors h =
     (Inr demo_fields, h @ [QuerySelector ''h1'', QuerySelector ''.description'', InnerText 1000])"
  by (simp add: extract_fields_def page_text_def optional_page_text_def bind_apply perform_apply
        return_apply lookup_def demo_selectors_simps site_page_fields strip_engineer
        demo_fields_def)

lemma site_attempt:
  "attempt_extract (crashing_site n cr) jd cid demo_selectors h =
     (Inr (build_job jd cid demo_fields), h @ site_detail_calls (url jd))"
  by (simp add: attempt_extract_def bind_apply perform_apply return_apply lookup_def
        demo_selectors_simps site_page_fields site_extract_fields site_detail_calls_def)

lemma site_details:
  "extract_job_details (crashing_site n cr) jd cid demo_selectors 3 h =
     (Inr (Some (build_job jd cid demo_fields)), h @ site_detail_calls (url jd))"
  unfolding extract_job_details_def
  by (subst extract_loop.simps) (simp add: site_attempt)

lemma site_detail_calls_facts:
  "launches (site_detail_calls u) = 0"
  "detail_visits (site_detail_calls u) = [u]"
  by (simp_all add: site_detail_calls_def launches_simps detail_visits_simps)

lemma site_batch:
  "\<exists>t. extract_batch (crashing_site n cr) st cid demo_selectors jds acc h =
         (Inr (acc @ map (\<lambda>jd. build_job jd cid demo_fields) jds), h @ t) \<and>
       launches t = 0 \<and> detail_visits t = map url jds"
proof (induction jds arbitrary: acc h)
  case Nil
  show ?case by (simp add: return_apply launches_simps detail_visits_simps)
next
  case (Cons jd jds)
  let ?ev = "crashing_site n cr" and ?j = "build_job jd cid demo_fields"
  let ?p = "if jds \<noteq> [] then [WaitForTimeout (scraper_scroll_pause st * 1000)] else []"
  let ?h1 = "h @ site_detail_calls (url jd) @ ?p"
  from Cons [of "acc @ [?j]" ?h1] obtain t where
    t: "extract_batch ?ev st cid demo_selectors jds (acc @ [?j]) ?h1 =
         (Inr ((acc @ [?j]) @ map (\<lambda>jd. build_job jd cid demo_fields) jds), ?h1 @ t)"
       "launches t = 0" "detail_visits t = map url jds" by blast
  have "extract_batch ?ev st cid demo_selectors (jd # jds) acc h =
      (Inr (acc @ map (\<lambda>jd. build_job jd cid demo_fields) (jd # jds)),
       h @ (site_detail_calls (url jd) @ ?p @ t))"
    using t(1)
    by (cases "jds = []")
       (simp_all add: bind_apply site_details perform_apply site_page_fields return_apply)
  moreover have "launches (site_detail_calls (url jd) @ ?p @ t) = 0"
    using t(2) by (simp add: launches_simps site_detail_calls_facts)
  moreover have "detail_visits (site_detail_calls (url jd) @ ?p @ t) = map url (jd # jds)"
    using t(3) by (simp add: detail_visits_simps site_detail_calls_facts)
  ultimately show ?case by blast
qed

lemma range_starts_single:
  assumes "0 < n" and "n \<le> bs"
  shows "range_starts n bs = [0]"
proof -
  from assms have "(n + bs - 1) div bs = 1"
    by (intro Euclidean_Rings.div_nat_eqI) simp_all
  then show ?thesis by (simp add: range_starts_def)
qed

lemma site_multiple:
  assumes "jds \<noteq> []" and "length jds \<le> 20" and "will_launch cr h"
  shows "\<exists>t. extract_multiple_jobs (crashing_site n cr) st jds cid demo_selectors 20 h =
         (Inr (map (\<lambda>jd. build_job jd cid demo_fields) jds), h @ t) \<and>
       launches t = 1 \<and> detail_visits t = map url jds"
proof -
  let ?ev = "crashing_site n cr"
  let ?s = "[PlaywrightStart, ChromiumLaunch (scraper_headless st), NewContext 2, NewPage 3,
             SetDefaultTimeout (scraper_timeout st)]"
  let ?c = "[PageClose 4, ContextClose 3, BrowserClose 2, PlaywrightStop 1]"
  let ?js = "map (\<lambda>jd. build_job jd cid demo_fields) jds"
  from assms have r: "range_starts (length jds) 20 = [0]"
    by (intro range_starts_single) simp_all
  from assms have sl: "slice jds 0 (0 + 20) = jds" by (simp add: slice_def)
  from site_batch [of n cr st cid jds "[]" "h @ ?s"] obtain t where
    t: "extract_batch ?ev st cid demo_selectors jds [] (h @ ?s) = (Inr ?js, (h @ ?s) @ t)"
       "launches t = 0" "detail_visits t = map url jds" by auto
  have w: "with_browser ?ev st (\<lambda>browser. extract_batch ?ev st cid demo_selectors jds []) h =
      (Inr ?js, h @ (?s @ t @ ?c))"
    using t(1) by (simp add: with_browser_def site_start [OF assms(3)] site_close)
  have z: "((20::nat) = 0) = False" by simp
  have "extract_multiple_jobs ?ev st jds cid demo_selectors 20 h = (Inr ?js, h @ (?s @ t @ ?c))"
    unfolding extract_multiple_jobs_def r
    by (simp only: z if_False extract_batches.simps sl bind_apply w prod.case sum.case return_apply)
  moreover have "launches (?s @ t @ ?c) = 1" using t(2) by (simp add: launches_simps)
  moreover have "detail_visits (?s @ t @ ?c) = map url jds"
    using t(3) by (simp add: detail_visits_simps)
  ultimately show ?thesis by blast
qed

lemma site_multiple_crash:
  assumes "jds \<noteq> []" and "length jds \<le> 20" and "launches h = k"
  shows "extract_multiple_jobs (crashing_site n (Some (k, msg))) st jds cid demo_selectors 20 h =
     (Inl (Error msg), h @ [PlaywrightStart, ChromiumLaunch (scraper_headless st)])"
proof -
  from assms have r: "range_starts (length jds) 20 = [0]"
    by (intro range_starts_single) simp_all
  have z: "((20::nat) = 0) = False" by simp
  show ?thesis
    unfolding extract_multiple_jobs_def r
    by (simp only: z if_False extract_batches.simps bind_apply
          site_with_browser_crash [OF assms(3)] prod.case sum.case)
qed


subsection \<open>The employment type\<close>










subsection \<open>The detail pages a run visits\<close>

lemma quiet_return: "extends_quietly (return x)"
  by (simp add: extends_quietly_def return_apply detail_visits_simps)

lemma quiet_raise: "extends_quietly (raise e)"
  by (simp add: extends_quietly_def raise_apply detail_visits_simps)

lemma quiet_perform: "detail_visits [c] = [] \<Longrightarrow> extends_quietly (perform c a)"
  by (simp add: extends_quietly_def perform_apply)

lemma quiet_bind:
  assumes "extends_quietly m" and "\<And>x. extends_quietly (f x)"
  shows "extends_quietly (bind m f)"
  unfolding extends_quietly_def
proof
  fix h
  from assms(1) obtain t where t: "snd (m h) = h @ t" "detail_visits t = []"
    unfolding extends_quietly_def by blast
  obtain r h1 where m: "m h = (r, h1)" by (cases "m h")
  show "\<exists>t. snd (bind m f h) = h @ t \<and> detail_visits t = []"
  proof (cases r)
    case (Inl e)
    with m t show ?thesis by (auto simp: bind_apply)
  next
    case (Inr x)
    from assms(2) [of x] obtain t' where "snd (f x h1) = h1 @ t'" "detail_visits t' = []"
      unfolding extends_quietly_def by blast
    with m t Inr have "snd (bind m f h) = h @ (t @ t')" "detail_visits (t @ t') = []"
      by (simp_all add: bind_apply detail_visits_simps)
    then show ?thesis by blast
  qed
qed

lemma quiet_lookup: "extends_quietly (lookup sels k)"
  by (simp add: lookup_def quiet_return quiet_raise split: option.splits)

lemma quiet_page_text: "extends_quietly (page_text ev sel)"
  unfolding page_text_def
  by (intro quiet_bind quiet_perform)
     (auto simp: detail_visits_simps quiet_return intro!: quiet_bind quiet_perform split: option.splits)

lemma quiet_optional_page_text: "extends_quietly (optional_page_text ev sels k)"
  by (simp add: optional_page_text_def quiet_return quiet_page_text split: option.splits)

lemma quiet_fallback: "extends_quietly (fallback_description ev ss)"
  by (induction ss)
     (auto simp: quiet_return intro!: quiet_bind quiet_page_text split: option.splits)

lemma quiet_extract_fields: "extends_quietly (extract_fields ev sels)"
  unfolding extract_fields_def
  by (intro quiet_bind quiet_page_text quiet_lookup quiet_optional_page_text quiet_return)
     (auto simp: quiet_return quiet_fallback split: option.splits
           simp del: fallback_description.simps)

lemma quietD:
  "extends_quietly m \<Longrightarrow> \<exists>t. snd (m h) = h @ t \<and> detail_visits t = []"
  by (simp add: extends_quietly_def)

lemma attempt_visits:
  "\<exists>t. snd (attempt_extract ev jd cid sels h) = h @ t \<and> detail_visits t = [url jd]"
proof -
  let ?rest = "\<lambda>_::unit.
    bind (perform (WaitForTimeout 3000) (\<lambda>h. wait_for_timeout ev h 3000)) (\<lambda>_.
    bind (perform (Evaluate scroll_js) (\<lambda>h. evaluate ev h scroll_js)) (\<lambda>_.
    bind (perform (WaitForTimeout 2000) (\<lambda>h. wait_for_timeout ev h 2000)) (\<lambda>_.
    bind (lookup sels ''detail_description'') (\<lambda>desc_selector.
    bind (perform (WaitForSelector desc_selector (Some ''visible'') 15000)
            (\<lambda>h. wait_for_selector ev h desc_selector (Some ''visible'') 15000)) (\<lambda>_.
    bind (extract_fields ev sels) (\<lambda>job_data.
    return (build_job jd cid job_data)))))))"
  let ?g = "Goto (url jd) ''networkidle'' 60000"
  have q: "extends_quietly (?rest ())"
    by (intro quiet_bind quiet_perform quiet_lookup quiet_extract_fields quiet_return)
       (simp_all add: detail_visits_simps)
  have a: "attempt_extract ev jd cid sels =
      bind (perform ?g (\<lambda>h. goto ev h (url jd) ''networkidle'' 60000)) ?rest"
    by (simp add: attempt_extract_def)
  from quietD [OF q, of "h @ [?g]"] obtain t where
    t: "snd (?rest () (h @ [?g])) = (h @ [?g]) @ t" "detail_visits t = []" by blast
  show ?thesis
  proof (cases "goto ev h (url jd) ''networkidle'' 60000")
    case (Inl e)
    then have "snd (attempt_extract ev jd cid sels h) = h @ [?g]"
      unfolding a by (simp add: bind_apply perform_apply)
    moreover have "detail_visits [?g] = [url jd]" by (simp add: detail_visits_simps)
    ultimately show ?thesis by blast
  next
    case (Inr u)
    then have "attempt_extract ev jd cid sels h = ?rest () (h @ [?g])"
      unfolding a by (simp only: bind_apply perform_apply prod.case sum.case)
    with t(1) have "snd (attempt_extract ev jd cid sels h) = h @ (?g # t)"
      by simp
    moreover have "detail_visits (?g # t) = [url jd]" using t(2) by (simp add: detail_visits_simps)
    ultimately show ?thesis by blast
  qed
qed

lemma loop_visits:
  "\<exists>t k. snd (extract_loop ev jd cid sels n a h) = h @ t \<and>
          detail_visits t = replicate k (url jd) \<and> k \<le> n - a \<and> (a < n \<longrightarrow> 1 \<le> k)"
proof (induction ev jd cid sels n a h rule: extract_loop.induct)
  case (1 ev jd cid sels max_retries attempt h)
  show ?case
  proof (cases "attempt < max_retries")
    case False
    then have "snd (extract_loop ev jd cid sels max_retries attempt h) = h @ []"
      by (subst extract_loop.simps) simp
    moreover have "detail_visits [] = replicate 0 (url jd)" by (simp add: detail_visits_simps)
    ultimately show ?thesis using False by (intro exI [of _ "[]"] exI [of _ 0]) simp
  next
    case True
    obtain r h1 where at: "attempt_extract ev jd cid sels h = (r, h1)"
      by (cases "attempt_extract ev jd cid sels h")
    from attempt_visits [of ev jd cid sels h] at obtain t1 where
      t1: "h1 = h @ t1" "detail_visits t1 = [url jd]" by auto
    have one: "snd (extract_loop ev jd cid sels max_retries attempt h) = h1 \<Longrightarrow> ?thesis"
      using t1 True by (intro exI [of _ t1] exI [of _ 1]) simp
    show ?thesis
    proof (cases r)
      case (Inr j)
      with True at have "snd (extract_loop ev jd cid sels max_retries attempt h) = h1"
        by (subst extract_loop.simps) simp
      then show ?thesis by (rule one)
    next
      case (Inl e)
      show ?thesis
      proof (cases "attempt < max_retries - 1")
        case False
        with True at Inl have "snd (extract_loop ev jd cid sels max_retries attempt h) = h1"
          by (subst extract_loop.simps) simp
        then show ?thesis by (rule one)
      next
        case lt: True
        obtain r2 h2 where p: "perform (WaitForTimeout 2000) (\<lambda>h. wait_for_timeout ev h 2000) h1 = (r2, h2)"
          by (cases "perform (WaitForTimeout 2000) (\<lambda>h. wait_for_timeout ev h 2000) h1")
        then have h2: "h2 = h1 @ [WaitForTimeout 2000]" by (simp add: perform_apply)
        show ?thesis
        proof (cases r2)
          case i2: (Inl e')
          with True at Inl lt p
          have "snd (extract_loop ev jd cid sels max_retries attempt h) = h @ (t1 @ [WaitForTimeout 2000])"
            by (subst extract_loop.simps) (simp add: h2 t1)
          moreover have "detail_visits (t1 @ [WaitForTimeout 2000]) = replicate 1 (url jd)"
            using t1 by (simp add: detail_visits_simps)
          ultimately show ?thesis using True
            by (intro exI [of _ "t1 @ [WaitForTimeout 2000]"] exI [of _ 1]) simp
        next
          case r: (Inr u)
          from 1 [OF True at [symmetric] Inl lt p [symmetric] r] obtain t k where
            tk: "snd (extract_loop ev jd cid sels max_retries (Suc attempt) h2) = h2 @ t"
                "detail_visits t = replicate k (url jd)" "k \<le> max_retries - Suc attempt"
            by blast
          from True at Inl lt p r
          have "extract_loop ev jd cid sels max_retries attempt h =
                extract_loop ev jd cid sels max_retries (Suc attempt) h2"
            by (subst extract_loop.simps) simp
          with tk(1) have "snd (extract_loop ev jd cid sels max_retries attempt h) =
              h @ (t1 @ [WaitForTimeout 2000] @ t)"
            by (simp add: h2 t1)
          moreover have "detail_visits (t1 @ [WaitForTimeout 2000] @ t) = replicate (Suc k) (url jd)"
            using t1 tk(2) by (simp add: detail_visits_simps)
          moreover have "Suc k \<le> max_retries - attempt" using tk(3) lt by simp
          ultimately show ?thesis
            by (intro exI [of _ "t1 @ [WaitForTimeout 2000] @ t"] exI [of _ "Suc k"]) simp
        qed
      qed
    qed
  qed
qed

lemma details_visits:
  assumes "extract_job_details ev jd cid sels 3 h = (r, h')"
  shows "\<exists>t k. h' = h @ t \<and> detail_visits t = replicate k (url jd) \<and> 1 \<le> k \<and> k \<le> 3"
  using loop_visits [of ev jd cid sels 3 0 h] assms
  by (auto simp: extract_job_details_def)

lemma visits_of_simps:
  "visits_of jds [] = []"
  "visits_of [] ns = []"
  "visits_of (jd # jds) (n # ns) = replicate n (url jd) @ visits_of jds ns"
  by (simp_all add: visits_of_def)

lemma visited_Nil: "visited c [] []"
  by (auto simp: visited_def attempt_counts_def visits_of_simps intro!: exI [of _ "[]"])

lemma visited_none: "visited False jds []"
  by (auto simp: visited_def attempt_counts_def visits_of_simps intro!: exI [of _ "[]"])

lemma visited_weaken: "visited c jds vs \<Longrightarrow> visited False jds vs"
  by (auto simp: visited_def attempt_counts_def)

lemma visited_Cons:
  assumes "1 \<le> k" and "k \<le> 3" and "visited c jds vs"
  shows "visited c (jd # jds) (replicate k (url jd) @ vs)"
proof -
  from assms(3) obtain ns where "attempt_counts c jds ns" "vs = visits_of jds ns"
    unfolding visited_def by blast
  with assms(1,2) have "attempt_counts c (jd # jds) (k # ns)"
    "replicate k (url jd) @ vs = visits_of (jd # jds) (k # ns)"
    by (simp_all add: attempt_counts_def visits_of_simps)
  then show ?thesis unfolding visited_def by blast
qed

lemma visited_stop:
  assumes "1 \<le> k" and "k \<le> 3"
  shows "visited False (jd # jds) (replicate k (url jd))"
  using visited_Cons [OF assms visited_none, of jd jds] by simp

lemma visits_of_append:
  "length ns = length xs \<Longrightarrow> visits_of (xs @ ys) (ns @ ms) = visits_of xs ns @ visits_of ys ms"
  by (simp add: visits_of_def)

lemma visited_append:
  assumes "visited True xs v1" and "visited c ys v2"
  shows "visited c (xs @ ys) (v1 @ v2)"
proof -
  from assms obtain ns ms where
    n: "attempt_counts True xs ns" "v1 = visits_of xs ns"
    and m: "attempt_counts c ys ms" "v2 = visits_of ys ms"
    unfolding visited_def by blast
  from n(1) have l: "length ns = length xs" by (simp add: attempt_counts_def)
  from n(1) m(1) l have "attempt_counts c (xs @ ys) (ns @ ms)"
    by (simp add: attempt_counts_def)
  moreover have "v1 @ v2 = visits_of (xs @ ys) (ns @ ms)"
    by (simp add: n m visits_of_append [OF l])
  ultimately show ?thesis unfolding visited_def by blast
qed

lemma visits_of_prefix: "length ns \<le> length xs \<Longrightarrow> visits_of (xs @ ys) ns = visits_of xs ns"
  by (simp add: visits_of_def zip_append1)

lemma visited_prefix:
  assumes "visited c xs v"
  shows "visited False (xs @ ys) v"
proof -
  from assms obtain ns where n: "attempt_counts c xs ns" "v = visits_of xs ns"
    unfolding visited_def by blast
  then have "attempt_counts False (xs @ ys) ns" "v = visits_of (xs @ ys) ns"
    by (simp_all add: attempt_counts_def visits_of_prefix)
  then show ?thesis unfolding visited_def by blast
qed

lemma batch_visits:
  "extract_batch ev st cid sels jds acc h = (r, h') \<Longrightarrow>
     \<exists>t. h' = h @ t \<and> visited (\<not> isl r) jds (detail_visits t)"
proof (induction jds arbitrary: acc h)
  case Nil
  then have "h' = h @ []" "\<not> isl r" by (auto simp: return_apply)
  then show ?case by (intro exI [of _ "[]"]) (simp add: detail_visits_simps visited_Nil)
next
  case (Cons jd jds)
  obtain rj h1 where d: "extract_job_details ev jd cid sels 3 h = (rj, h1)"
    by (cases "extract_job_details ev jd cid sels 3 h")
  from details_visits [OF d] obtain t1 k where
    t1: "h1 = h @ t1" "detail_visits t1 = replicate k (url jd)" "1 \<le> k" "k \<le> 3" by blast
  show ?case
  proof (cases rj)
    case (Inl e)
    with Cons.prems d have "h' = h @ t1" "isl r" by (auto simp: bind_apply t1)
    with t1 show ?thesis by (intro exI [of _ t1]) (simp add: visited_stop)
  next
    case (Inr j)
    let ?acc = "case j of None \<Rightarrow> acc | Some x \<Rightarrow> acc @ [x]"
    let ?w = "WaitForTimeout (scraper_scroll_pause st * 1000)"
    show ?thesis
    proof (cases "jds = []")
      case True
      with Cons.prems d Inr have "h' = h @ t1" "\<not> isl r" by (auto simp: bind_apply t1 return_apply)
      moreover have "visited True [jd] (replicate k (url jd) @ [])"
        using t1 by (intro visited_Cons visited_Nil)
      ultimately show ?thesis using t1 True by (intro exI [of _ t1]) simp
    next
      case False
      show ?thesis
      proof (cases "wait_for_timeout ev h1 (scraper_scroll_pause st * 1000)")
        case w: (Inl e)
        with Cons.prems d Inr False have "h' = h @ (t1 @ [?w])" "isl r"
          by (auto simp: bind_apply t1 perform_apply)
        moreover have "detail_visits (t1 @ [?w]) = replicate k (url jd)"
          using t1 by (simp add: detail_visits_simps)
        ultimately show ?thesis using t1
          by (intro exI [of _ "t1 @ [?w]"]) (simp add: visited_stop)
      next
        case w: (Inr u)
        with Cons.prems d Inr False
        have "extract_batch ev st cid sels jds ?acc (h1 @ [?w]) = (r, h')"
          by (simp add: bind_apply perform_apply)
        from Cons.IH [OF this] obtain t where
          t: "h' = (h1 @ [?w]) @ t" "visited (\<not> isl r) jds (detail_visits t)" by blast
        have "detail_visits (t1 @ [?w] @ t) = replicate k (url jd) @ detail_visits t"
          using t1 by (simp add: detail_visits_simps)
        with t t1 show ?thesis
          by (intro exI [of _ "t1 @ [?w] @ t"]) (simp add: visited_Cons)
      qed
    qed
  qed
qed

lemma quiet_close_if: "extends_quietly (close_if slot c a)" if "\<And>x. detail_visits [c x] = []"
  using that by (simp add: close_if_def quiet_return quiet_perform split: option.splits)

lemma quiet_close: "extends_quietly (close ev m)"
  unfolding close_def
  by (intro quiet_bind quiet_close_if) (simp_all add: detail_visits_simps)

lemma start_quiet: "\<exists>t. snd (start ev st m h) = h @ t \<and> detail_visits t = []"
proof -
  have "\<exists>t. snd (start ev st m h) = h @ t \<and>
          set t \<subseteq> {PlaywrightStart, ChromiumLaunch (scraper_headless st)} \<union> range NewContext \<union>
                  range NewPage \<union> {SetDefaultTimeout (scraper_timeout st)}"
    by (auto simp: start_def perform_apply Let_def split: sum.splits)
  then obtain t where t: "snd (start ev st m h) = h @ t"
    "set t \<subseteq> {PlaywrightStart, ChromiumLaunch (scraper_headless st)} \<union> range NewContext \<union>
                  range NewPage \<union> {SetDefaultTimeout (scraper_timeout st)}" by blast
  have "detail_visits t = []"
    unfolding detail_visits_def using t(2) by (auto split: call.splits)
  with t show ?thesis by blast
qed

lemma with_browser_visits:
  assumes "with_browser ev st (\<lambda>browser. extract_batch ev st cid sels jds acc) h = (r, h')"
  shows "\<exists>t. h' = h @ t \<and> visited (\<not> isl r) jds (detail_visits t)"
proof -
  obtain se m h1 where s: "start ev st new_manager h = ((se, m), h1)"
    by (cases "start ev st new_manager h") auto
  from start_quiet [of ev st new_manager h] s obtain t1 where
    t1: "h1 = h @ t1" "detail_visits t1 = []" by auto
  show ?thesis
  proof (cases se)
    case (Some e)
    with assms s have "h' = h @ t1" "isl r" by (auto simp: with_browser_def t1)
    with t1 show ?thesis by (intro exI [of _ t1]) (simp add: visited_none)
  next
    case None
    obtain r0 h2 where b: "extract_batch ev st cid sels jds acc h1 = (r0, h2)"
      by (cases "extract_batch ev st cid sels jds acc h1")
    from batch_visits [OF b] obtain t2 where
      t2: "h2 = h1 @ t2" "visited (\<not> isl r0) jds (detail_visits t2)" by blast
    obtain rc h3 where c: "close ev m h2 = (rc, h3)" by (cases "close ev m h2")
    from quietD [OF quiet_close, of ev m h2] c obtain t3 where
      t3: "h3 = h2 @ t3" "detail_visits t3 = []" by auto
    have v: "detail_visits (t1 @ t2 @ t3) = detail_visits t2"
      using t1 t3 by (simp add: detail_visits_simps)
    have h: "h' = h @ (t1 @ t2 @ t3)"
      using assms s None b c by (auto simp: with_browser_def t1 t2 t3 split: sum.splits)
    have "visited (\<not> isl r) jds (detail_visits t2)"
    proof (cases rc)
      case (Inl e)
      with assms s None b c have "isl r" by (auto simp: with_browser_def)
      with t2(2) show ?thesis by (auto dest: visited_weaken)
    next
      case (Inr u)
      with assms s None b c have "r = r0" by (auto simp: with_browser_def)
      with t2(2) show ?thesis by simp
    qed
    with h v show ?thesis by (intro exI [of _ "t1 @ t2 @ t3"]) simp
  qed
qed

lemma batches_visits:
  "extract_batches ev st cid sels jobs bs ss acc h = (r, h') \<Longrightarrow>
     \<exists>t. h' = h @ t \<and>
         visited (\<not> isl r) (concat (map (\<lambda>s. slice jobs s (s + bs)) ss)) (detail_visits t)"
proof (induction ss arbitrary: acc h)
  case Nil
  then have "h' = h @ []" "\<not> isl r" by (auto simp: return_apply)
  then show ?case by (intro exI [of _ "[]"]) (simp add: detail_visits_simps visited_Nil)
next
  case (Cons s ss)
  let ?b = "slice jobs s (s + bs)"
  obtain r1 h1 where w: "with_browser ev st (\<lambda>browser. extract_batch ev st cid sels ?b acc) h = (r1, h1)"
    by (cases "with_browser ev st (\<lambda>browser. extract_batch ev st cid sels ?b acc) h")
  from with_browser_visits [OF w] obtain t1 where
    t1: "h1 = h @ t1" "visited (\<not> isl r1) ?b (detail_visits t1)" by blast
  show ?case
  proof (cases r1)
    case (Inl e)
    with Cons.prems w have "h' = h @ t1" "isl r" by (auto simp: bind_apply t1)
    moreover from t1(2) have "visited False (?b @ concat (map (\<lambda>s. slice jobs s (s + bs)) ss)) (detail_visits t1)"
      by (rule visited_prefix)
    ultimately show ?thesis by (intro exI [of _ t1]) simp
  next
    case (Inr ex)
    with Cons.prems w have "extract_batches ev st cid sels jobs bs ss ex h1 = (r, h')"
      by (simp add: bind_apply)
    from Cons.IH [OF this] obtain t where
      t: "h' = h1 @ t"
         "visited (\<not> isl r) (concat (map (\<lambda>s. slice jobs s (s + bs)) ss)) (detail_visits t)" by blast
    from t1(2) Inr have "visited True ?b (detail_visits t1)" by simp
    from visited_append [OF this t(2)] t(1) t1(1) show ?thesis
      by (intro exI [of _ "t1 @ t"]) (simp add: detail_visits_simps)
  qed
qed

lemma concat_slices: "0 < bs \<Longrightarrow> concat (map (\<lambda>s. slice xs s (s + bs)) (range_starts (length xs) bs)) = xs"
proof -
  assume bs: "0 < bs"
  have "map (\<lambda>s. slice xs s (s + bs)) (range_starts (length xs) bs) = batches_of xs bs"
    unfolding batches_of_def
    by (rule map_cong [OF refl])
       (use range_starts_le [OF bs] in \<open>simp add: slice_batch less_imp_le\<close>, simp add: slice_def)
  with concat_batches [OF bs, of xs] show ?thesis by simp
qed

lemma multiple_visits:
  assumes "extract_multiple_jobs ev st jobs cid sels bs h = (r, h')"
  shows "\<exists>t. h' = h @ t \<and> visited (\<not> isl r) jobs (detail_visits t)"
proof (cases "bs = 0")
  case True
  with assms have "h' = h @ []" "isl r" by (auto simp: extract_multiple_jobs_def raise_apply)
  then show ?thesis by (intro exI [of _ "[]"]) (simp add: detail_visits_simps visited_none)
next
  case False
  with assms have "extract_batches ev st cid sels jobs bs (range_starts (length jobs) bs) [] h = (r, h')"
    by (simp add: extract_multiple_jobs_def)
  from batches_visits [OF this] False show ?thesis by (simp add: concat_slices)
qed

lemma save_batches_visits:
  "save_batches ev st co new_jobs bs ss saved (h, db) = (r, h', db') \<Longrightarrow>
     \<exists>t. h' = h @ t \<and>
         visited (\<not> isl r) (concat (map (batch_at new_jobs bs) ss)) (detail_visits t)"
proof (induction ss arbitrary: saved h db)
  case Nil
  then have "h' = h @ []" "\<not> isl r" by auto
  then show ?case by (intro exI [of _ "[]"]) (simp add: detail_visits_simps visited_Nil)
next
  case (Cons s ss)
  let ?b = "batch_at new_jobs bs s"
  let ?rest = "concat (map (batch_at new_jobs bs) ss)"
  obtain r1 h1 where m: "extract_multiple_jobs ev st ?b (c_id co) (c_selectors co) bs h = (r1, h1)"
    by (cases "extract_multiple_jobs ev st ?b (c_id co) (c_selectors co) bs h")
  from multiple_visits [OF m] obtain t1 where
    t1: "h1 = h @ t1" "visited (\<not> isl r1) ?b (detail_visits t1)" by blast
  from t1(2) have p: "visited False (?b @ ?rest) (detail_visits t1)" by (rule visited_prefix)
  show ?case
  proof (cases r1)
    case (Inl e)
    with Cons.prems m have "h' = h @ t1" "isl r" by (auto simp: t1)
    with p show ?thesis by (intro exI [of _ t1]) simp
  next
    case (Inr js)
    obtain ra db1 where a: "add_jobs db js saved = (ra, db1)" by (cases "add_jobs db js saved")
    show ?thesis
    proof (cases ra)
      case i: (Inl e)
      with Cons.prems m Inr a have "h' = h @ t1" "isl r" by (auto simp: t1)
      with p show ?thesis by (intro exI [of _ t1]) simp
    next
      case s: (Inr saved')
      with Cons.prems m Inr a
      have "save_batches ev st co new_jobs bs ss saved' (h1, db1) = (r, h', db')" by simp
      from Cons.IH [OF this] obtain t where
        t: "h' = h1 @ t" "visited (\<not> isl r) ?rest (detail_visits t)" by blast
      from t1(2) Inr have "visited True ?b (detail_visits t1)" by simp
      from visited_append [OF this t(2)] t(1) t1(1) show ?thesis
        by (intro exI [of _ "t1 @ t"]) (simp add: detail_visits_simps)
    qed
  qed
qed

lemma save_all_visits:
  assumes "0 < bs"
    and "save_batches ev st co new_jobs bs (range_starts (length new_jobs) bs) saved (h, db) = (r, h', db')"
  shows "\<exists>t. h' = h @ t \<and> visited (\<not> isl r) new_jobs (detail_visits t)"
  using save_batches_visits [OF assms(2)] concat_batches [OF assms(1), of new_jobs]
  by (simp add: batches_of_def)

lemma job_exists_update_run [simp]:
  "job_exists (update_scrape_run db now run_id a b c d) x = job_exists db x"
  by (simp add: job_exists_def update_scrape_run_def)

lemma scrape_body_visits:
  assumes "discover_all_jobs_for_company ev st co cats h = (Inr discovered, h1)"
    and "scrape_body ev st now co cats job_limit run_id (h, db) = (r, h2, db2)"
  shows "\<exists>t. h2 = h1 @ t \<and> visited (\<not> isl r) (new_jobs_of db job_limit discovered) (detail_visits t)"
proof -
  let ?db1 = "update_scrape_run db now run_id (Some (length discovered)) None None None"
  have n: "new_jobs_of ?db1 job_limit discovered = new_jobs_of db job_limit discovered"
    by (simp add: new_jobs_of_def)
  let ?new = "new_jobs_of db job_limit discovered"
  show ?thesis
  proof (cases "?new = []")
    case True
    with assms have "h2 = h1 @ []" "\<not> isl r"
      by (auto simp: scrape_body_def Let_def n)
    with True show ?thesis by (intro exI [of _ "[]"]) (simp add: detail_visits_simps visited_Nil)
  next
    case False
    obtain r' h3 db3 where
      s: "save_batches ev st co ?new 20 (range_starts (length ?new) 20) 0 (h1, ?db1) = (r', h3, db3)"
      by (cases "save_batches ev st co ?new 20 (range_starts (length ?new) 20) 0 (h1, ?db1)") auto
    from assms False s have "h2 = h3" "isl r = isl r'"
      by (auto simp: scrape_body_def Let_def n split: sum.splits)
    with save_all_visits [OF _ s] show ?thesis by simp
  qed
qed

subsection \<open>The batch loop of the driver\<close>

lemma save_batches_step:
  "save_batches ev st co new_jobs bs (s # ss) =
     save_step ev st co bs (batch_at new_jobs bs s) (save_batches ev st co new_jobs bs ss)"
  by (simp add: fun_eq_iff save_step_def split: prod.splits sum.splits)

lemma save_batches_end:
  "save_batches ev st co new_jobs bs [] = (\<lambda>saved (h, db). (Inr saved, h, db))"
  by (simp add: fun_eq_iff)

lemma batch_at_45:
  assumes "length xs = 45"
  shows "batch_at xs 20 0 = take 20 xs" "batch_at xs 20 20 = take 20 (drop 20 xs)"
    "batch_at xs 20 40 = drop 40 xs"
  using assms by (simp_all add: batch_at_def slice_def)

lemma save_batches_45:
  assumes "length new_jobs = 45"
  shows "save_batches ev st co new_jobs 20 (range_starts (length new_jobs) 20) saved (h, db) =
     save_step ev st co 20 (take 20 new_jobs)
       (save_step ev st co 20 (take 20 (drop 20 new_jobs))
         (save_step ev st co 20 (drop 40 new_jobs)
           (\<lambda>saved (h, db). (Inr saved, h, db)))) saved (h, db)"
  unfolding assms range_starts_45 save_batches_step save_batches_end batch_at_45 [OF assms] ..

lemma add_job_Inr:
  assumes "add_job db j = Inr (i, db')"
  shows "db' = db\<lparr>jobs_table := jobs_table db @ [j\<lparr>job_id := Some i\<rparr>]\<rparr>"
  using assms by (auto simp: add_job_def split: if_splits)

lemma persisted_mono:
  "persisted db j \<Longrightarrow> jobs_table db' = jobs_table db @ xs \<Longrightarrow> persisted db' j"
  by (auto simp: persisted_def)

lemma add_jobs_result:
  "add_jobs db js s = (r, db') \<Longrightarrow>
     scrape_runs db' = scrape_runs db \<and> last_scraped db' = last_scraped db \<and>
     (\<exists>xs. jobs_table db' = jobs_table db @ xs) \<and>
     (\<forall>n. r = Inr n \<longrightarrow> n = s + length js \<and> (\<forall>j\<in>set js. persisted db' j) \<and>
          length (jobs_table db') = length (jobs_table db) + length js)"
proof (induction js arbitrary: db s)
  case Nil
  then show ?case by auto
next
  case (Cons j js)
  show ?case
  proof (cases "add_job db j")
    case (Inl e)
    with Cons.prems show ?thesis by auto
  next
    case (Inr p)
    obtain i db1 where p: "p = (i, db1)" by (cases p)
    from add_job_Inr [OF Inr [unfolded p]]
    have d: "db1 = db\<lparr>jobs_table := jobs_table db @ [j\<lparr>job_id := Some i\<rparr>]\<rparr>" .
    from Cons.prems Inr p have a: "add_jobs db1 js (Suc s) = (r, db')" by simp
    from Cons.IH [OF a] obtain xs where
      i: "scrape_runs db' = scrape_runs db1" "last_scraped db' = last_scraped db1"
         "jobs_table db' = jobs_table db1 @ xs"
         "\<forall>n. r = Inr n \<longrightarrow> n = Suc s + length js \<and> (\<forall>j\<in>set js. persisted db' j) \<and>
              length (jobs_table db') = length (jobs_table db1) + length js"
      by blast
    have "persisted db1 j" by (auto simp: persisted_def d)
    then have "persisted db' j" using i(3) by (rule persisted_mono)
    with i d show ?thesis by auto
  qed
qed

lemma add_jobs_runs:
  "add_jobs db js s = (r, db') \<Longrightarrow>
     add_jobs (db\<lparr>scrape_runs := x\<rparr>) js s = (r, db'\<lparr>scrape_runs := x\<rparr>)"
proof (induction js arbitrary: db s)
  case Nil
  then show ?case by auto
next
  case (Cons j js)
  show ?case
  proof (cases "add_job db j")
    case (Inl e)
    with Cons.prems show ?thesis by (auto simp: add_job_def split: if_splits)
  next
    case (Inr p)
    obtain i db1 where p: "p = (i, db1)" by (cases p)
    from add_job_Inr [OF Inr [unfolded p]]
    have d: "db1 = db\<lparr>jobs_table := jobs_table db @ [j\<lparr>job_id := Some i\<rparr>]\<rparr>" .
    from Inr p have "add_job (db\<lparr>scrape_runs := x\<rparr>) j = Inr (i, db1\<lparr>scrape_runs := x\<rparr>)"
      by (auto simp: add_job_def d split: if_splits)
    moreover from Cons.prems Inr p have "add_jobs db1 js (Suc s) = (r, db')" by simp
    from Cons.IH [OF this] have "add_jobs (db1\<lparr>scrape_runs := x\<rparr>) js (Suc s) = (r, db'\<lparr>scrape_runs := x\<rparr>)" .
    ultimately show ?thesis by simp
  qed
qed

lemma failed_run_row:
  assumes "scrape_runs db2 = rs @ [row]" and "run_error_message row = None"
  shows "\<exists>run. get_scrape_run
              (update_scrape_run db2 now (Suc (length rs)) None None (Some ''failed'') (Some msg))
              (Suc (length rs)) = Some run \<and>
           run_status run = ''failed'' \<and>
           run_error_message run = (if msg = [] then None else Some msg) \<and>
           run_jobs_discovered run = run_jobs_discovered row \<and>
           run_completed_at run = run_completed_at row"
  using assms
  by (simp add: get_scrape_run_def update_scrape_run_def update_run_row_def missing_def Let_def)

lemma failed_batch_run:
  assumes d: "discover_all_jobs_for_company ev st co cats h = (Inr discovered, h1)"
    and n: "new_jobs = new_jobs_of db job_limit discovered" and l: "length new_jobs = 45"
    and b1: "extract_multiple_jobs ev st (take 20 new_jobs) (c_id co) (c_selectors co) 20 h1 =
              (Inr js1, h2)"
    and s1: "add_jobs db js1 0 = (Inr n1, dbs)"
    and b2: "extract_multiple_jobs ev st (take 20 (drop 20 new_jobs)) (c_id co) (c_selectors co) 20 h2 =
              (Inl e, h3)"
  shows "\<exists>dbf run.
     scrape_company ev st now co cats job_limit (h, db) = (h3, dbf) \<and>
     jobs_table dbf = jobs_table dbs \<and> (\<forall>j\<in>set js1. persisted dbf j) \<and>
     get_scrape_run dbf (Suc (length (scrape_runs db))) = Some run \<and>
     run_status run = ''failed'' \<and>
     run_error_message run = (if str_exn e = [] then None else Some (str_exn e)) \<and>
     run_jobs_discovered run = length discovered \<and> run_jobs_scraped run = 0 \<and>
     run_completed_at run = None"
proof -
  let ?rid = "Suc (length (scrape_runs db))"
  let ?row0 = "\<lparr>run_company_id = c_id co, run_search_term = ''Multiple categories'',
            run_completed_at = None, run_jobs_discovered = 0, run_jobs_scraped = 0,
            run_status = ''running'', run_error_message = None\<rparr>"
  let ?row1 = "\<lparr>run_company_id = c_id co, run_search_term = ''Multiple categories'',
            run_completed_at = None, run_jobs_discovered = length discovered,
            run_jobs_scraped = 0, run_status = ''running'', run_error_message = None\<rparr>"
  let ?db0 = "db\<lparr>scrape_runs := scrape_runs db @ [?row0]\<rparr>"
  let ?db1 = "db\<lparr>scrape_runs := scrape_runs db @ [?row1]\<rparr>"
  let ?db2 = "dbs\<lparr>scrape_runs := scrape_runs db @ [?row1]\<rparr>"
  let ?dbf = "update_scrape_run ?db2 now ?rid None None (Some ''failed'') (Some (str_exn e))"
  have c: "create_scrape_run db (c_id co) ''Multiple categories'' = (?rid, ?db0)"
    by (simp add: create_scrape_run_def)
  have u: "update_scrape_run ?db0 now ?rid (Some (length discovered)) None None None = ?db1"
    by (simp add: update_scrape_run_def update_run_row_def missing_def Let_def)
  have nj: "new_jobs_of ?db1 job_limit discovered = new_jobs"
    by (simp add: n new_jobs_of_def job_exists_def)
  have ne: "new_jobs \<noteq> []" using l by auto
  have a: "add_jobs ?db1 js1 0 = (Inr n1, ?db2)" by (rule add_jobs_runs [OF s1])
  have sb: "save_batches ev st co new_jobs 20 (range_starts (length new_jobs) 20) 0 (h1, ?db1) =
      (Inl e, h3, ?db2)"
    unfolding save_batches_45 [OF l] by (simp add: save_step_def b1 a b2)
  have body: "scrape_body ev st now co cats job_limit ?rid (h, ?db0) = (Inl e, h3, ?db2)"
    by (simp add: scrape_body_def d u nj ne sb Let_def)
  have run: "scrape_company ev st now co cats job_limit (h, db) = (h3, ?dbf)"
    by (simp add: scrape_company_def c body)
  have jt: "jobs_table ?dbf = jobs_table dbs" by (simp add: update_scrape_run_def)
  from add_jobs_result [OF s1] have "\<forall>j\<in>set js1. persisted dbs j" by blast
  then have ps: "\<forall>j\<in>set js1. persisted ?dbf j"
    by (auto simp: persisted_def jt)
  from failed_run_row [of ?db2 "scrape_runs db" ?row1 now "str_exn e"]
  obtain run where
    "get_scrape_run ?dbf ?rid = Some run" "run_status run = ''failed''"
    "run_error_message run = (if str_exn e = [] then None else Some (str_exn e))"
    "run_jobs_discovered run = length discovered" "run_completed_at run = None"
    "run_jobs_scraped run = 0"
    by (auto simp: get_scrape_run_def update_scrape_run_def update_run_row_def missing_def Let_def)
  with run jt ps show ?thesis by blast
qed

text \<open>
  Claim C1. Let a run find 45 new listings. The batch loop of the driver, with its batch
  size 20, is three turns: on the first 20 listings, on the next 20 and on the last 5, which
  together are the new listings in order. If the extraction of the first batch returns and
  its jobs are saved, and the extraction of the second batch raises \<open>e\<close>, then the run ends
  where the exception was raised, without a turn on the third batch; the table of jobs is
  as the first batch left it and holds every job of the first batch; and the row of the run
  has the status \<open>failed\<close>, no completion time, and the message \<open>str(e)\<close>, unless that text
  is empty: then the row keeps the message it was created with, none.
\<close>

theorem failed_batch_keeps_saved_jobs:
  assumes "discover_all_jobs_for_company ev st co cats h = (Inr discovered, h1)"
    and "new_jobs = new_jobs_of db job_limit discovered" and "length new_jobs = 45"
    and "extract_multiple_jobs ev st (take 20 new_jobs) (c_id co) (c_selectors co) 20 h1 =
           (Inr js1, h2)"
    and "add_jobs db js1 0 = (Inr n1, dbs)"
    and "extract_multiple_jobs ev st (take 20 (drop 20 new_jobs)) (c_id co) (c_selectors co) 20 h2 =
           (Inl e, h3)"
  shows "length (take 20 new_jobs) = 20 \<and> length (take 20 (drop 20 new_jobs)) = 20 \<and>
     length (drop 40 new_jobs) = 5 \<and>
     take 20 new_jobs @ take 20 (drop 20 new_jobs) @ drop 40 new_jobs = new_jobs \<and>
     save_batches ev st co new_jobs 20 (range_starts (length new_jobs) 20) saved (hx, dbx) =
       save_step ev st co 20 (take 20 new_jobs)
         (save_step ev st co 20 (take 20 (drop 20 new_jobs))
           (save_step ev st co 20 (drop 40 new_jobs)
             (\<lambda>saved (h, db). (Inr saved, h, db)))) saved (hx, dbx) \<and>
     (\<exists>dbf run.
        scrape_company ev st now co cats job_limit (h, db) = (h3, dbf) \<and>
        jobs_table dbf = jobs_table dbs \<and> (\<forall>j\<in>set js1. persisted dbf j) \<and>
        get_scrape_run dbf (Suc (length (scrape_runs db))) = Some run \<and>
        run_status run = ''failed'' \<and>
        run_error_message run = (if str_exn e = [] then None else Some (str_exn e)) \<and>
        run_jobs_discovered run = length discovered \<and> run_jobs_scraped run = 0 \<and>
        run_completed_at run = None)"
proof (intro conjI)
  show "length (take 20 new_jobs) = 20" "length (take 20 (drop 20 new_jobs)) = 20"
    "length (drop 40 new_jobs) = 5"
    using assms(3) by simp_all
  have "take 20 (drop 20 new_jobs) @ drop 40 new_jobs = drop 20 new_jobs"
    using append_take_drop_id [of 20 "drop 20 new_jobs"] by simp
  then show "take 20 new_jobs @ take 20 (drop 20 new_jobs) @ drop 40 new_jobs = new_jobs"
    by simp
  show "save_batches ev st co new_jobs 20 (range_starts (length new_jobs) 20) saved (hx, dbx) =
       save_step ev st co 20 (take 20 new_jobs)
         (save_step ev st co 20 (take 20 (drop 20 new_jobs))
           (save_step ev st co 20 (drop 40 new_jobs)
             (\<lambda>saved (h, db). (Inr saved, h, db)))) saved (hx, dbx)"
    by (rule save_batches_45 [OF assms(3)])
  show "\<exists>dbf run.
        scrape_company ev st now co cats job_limit (h, db) = (h3, dbf) \<and>
        jobs_table dbf = jobs_table dbs \<and> (\<forall>j\<in>set js1. persisted dbf j) \<and>
        get_scrape_run dbf (Suc (length (scrape_runs db))) = Some run \<and>
        run_status run = ''failed'' \<and>
        run_error_message run = (if str_exn e = [] then None else Some (str_exn e)) \<and>
        run_jobs_discovered run = length discovered \<and> run_jobs_scraped run = 0 \<and>
        run_completed_at run = None"
    by (rule failed_batch_run [OF assms])
qed

lemma add_jobs_fresh:
  assumes "distinct (map job_url js)" and "distinct (map job_url_hash js)"
    and "\<forall>j\<in>set js. job_url j \<notin> set (map job_url (jobs_table db)) \<and>
                     job_url_hash j \<notin> set (map job_url_hash (jobs_table db))"
  shows "\<exists>db'. add_jobs db js s = (Inr (s + length js), db')"
  using assms
proof (induction js arbitrary: db s)
  case Nil
  show ?case by simp
next
  case (Cons j js)
  let ?db1 = "db\<lparr>jobs_table := jobs_table db @
                  [j\<lparr>job_id := Some (Suc (length (jobs_table db)))\<rparr>]\<rparr>"
  from Cons.prems(3) have a: "add_job db j = Inr (Suc (length (jobs_table db)), ?db1)"
    by (simp add: add_job_def)
  have "\<exists>db'. add_jobs ?db1 js (Suc s) = (Inr (Suc s + length js), db')"
  proof (intro Cons.IH)
    show "distinct (map job_url js)" "distinct (map job_url_hash js)"
      using Cons.prems by simp_all
    show "\<forall>j\<in>set js. job_url j \<notin> set (map job_url (jobs_table ?db1)) \<and>
                     job_url_hash j \<notin> set (map job_url_hash (jobs_table ?db1))"
    proof
      fix x assume x: "x \<in> set js"
      with Cons.prems(1,2) have "job_url x \<noteq> job_url j" "job_url_hash x \<noteq> job_url_hash j"
        by (auto simp: image_iff)
      with x Cons.prems(3)
      show "job_url x \<notin> set (map job_url (jobs_table ?db1)) \<and>
            job_url_hash x \<notin> set (map job_url_hash (jobs_table ?db1))"
        by simp
    qed
  qed
  then show ?case by (simp add: a)
qed

lemma demo_url_inj: "(demo_url i = demo_url j) = (i = j)"
proof
  assume "demo_url i = demo_url j"
  then have "length (demo_url i) = length (demo_url j)" by simp
  then show "i = j" by (simp add: demo_url_def)
qed simp

lemma demo_job_keys:
  "job_url (build_job (demo_listing k) cid fs) = demo_url k"
  "job_url_hash (build_job (demo_listing k) cid fs) = url_hash (demo_listing k)"
  by (simp_all add: build_job_def demo_listing_def)

lemma demo_jobs_fresh:
  assumes "b \<le> 1000"
  shows "\<exists>dbs. add_jobs empty_db (map (\<lambda>jd. build_job jd 1 demo_fields) (map demo_listing [a..<b])) 0 =
           (Inr (b - a), dbs)"
proof -
  let ?js = "map (\<lambda>jd. build_job jd 1 demo_fields) (map demo_listing [a..<b])"
  have 1: "distinct (map job_url ?js)"
    by (simp add: distinct_map comp_def demo_job_keys inj_on_def demo_url_inj)
  have 2: "distinct (map job_url_hash ?js)"
    using assms by (simp add: distinct_map comp_def demo_job_keys inj_on_def demo_hash_inj)
  from add_jobs_fresh [OF 1 2, of empty_db 0] show ?thesis
    by (simp add: empty_db_def)
qed

lemma site_failed_run:
  "\<exists>h1 h2 h3 js1 n1 dbs.
     discover_all_jobs_for_company (crashing_site 45 (Some (2, msg))) default_settings demo_company
       [''Backend Engineer''] [] = (Inr (map demo_listing [0..<45]), h1) \<and>
     extract_multiple_jobs (crashing_site 45 (Some (2, msg))) default_settings
       (take 20 (map demo_listing [0..<45])) (c_id demo_company) (c_selectors demo_company) 20 h1 =
       (Inr js1, h2) \<and>
     add_jobs empty_db js1 0 = (Inr n1, dbs) \<and> length js1 = 20 \<and>
     extract_multiple_jobs (crashing_site 45 (Some (2, msg))) default_settings
       (take 20 (drop 20 (map demo_listing [0..<45]))) (c_id demo_company)
       (c_selectors demo_company) 20 h2 = (Inl (Error msg), h3)"
proof -
  let ?ev = "crashing_site 45 (Some (2, msg))"
  let ?b1 = "take 20 (map demo_listing [0..<45])"
  let ?b2 = "take 20 (drop 20 (map demo_listing [0..<45]))"
  have co: "c_id demo_company = 1" "c_selectors demo_company = demo_selectors"
    by (simp_all add: demo_company_def)
  have w0: "will_launch (Some (2, msg)) []" by (simp add: will_launch_def launches_simps)
  from site_discover_all [of 45 "Some (2, msg)" "[]" default_settings "[]", OF _ _ w0]
  obtain t1 where
    d: "discover_all_jobs_for_company ?ev default_settings demo_company [''Backend Engineer''] [] =
          (Inr (map demo_listing [0..<45]), t1)" and l1: "launches t1 = 1" by auto
  have b1: "?b1 = map demo_listing [0..<20]" by (simp add: take_map)
  have b2: "?b2 = map demo_listing [20..<40]" by (simp add: take_map drop_map)
  have w1: "will_launch (Some (2, msg)) t1" using l1 by (simp add: will_launch_def)
  from site_multiple [of ?b1 "Some (2, msg)" t1 45 default_settings 1, OF _ _ w1]
  obtain t2 where
    m1: "extract_multiple_jobs ?ev default_settings ?b1 1 demo_selectors 20 t1 =
          (Inr (map (\<lambda>jd. build_job jd 1 demo_fields) ?b1), t1 @ t2)" and l2: "launches t2 = 1"
    by (auto simp: b1)
  from demo_jobs_fresh [of 20 0] obtain dbs where
    a: "add_jobs empty_db (map (\<lambda>jd. build_job jd 1 demo_fields) ?b1) 0 = (Inr 20, dbs)"
    by (auto simp: b1)
  have l: "launches (t1 @ t2) = 2" using l1 l2 by (simp add: launches_simps)
  have m2: "extract_multiple_jobs ?ev default_settings ?b2 1 demo_selectors 20 (t1 @ t2) =
      (Inl (Error msg), (t1 @ t2) @ [PlaywrightStart, ChromiumLaunch (scraper_headless default_settings)])"
    by (rule site_multiple_crash [OF _ _ l]) (simp_all add: b2)
  have len: "length (map (\<lambda>jd. build_job jd 1 demo_fields) ?b1) = 20" by (simp add: b1)
  from d m1 a len m2 show ?thesis unfolding co by blast
qed

text \<open>
  An example: on the example site with 45 cards, whose browser fails to launch for the
  second batch with the message \<open>Browser closed\<close>, the run ends with the 20 jobs of the first
  batch in the table and the run row failed with that message.
\<close>

theorem failed_batch_keeps_saved_jobs_witness:
  "\<exists>h3 dbf run.
     scrape_company (crashing_site 45 (Some (2, ''Browser closed''))) default_settings
       ''2026-11-04T09:00:00'' demo_company [''Backend Engineer''] None ([], empty_db) = (h3, dbf) \<and>
     length (jobs_table dbf) = 20 \<and>
     get_scrape_run dbf 1 = Some run \<and> run_status run = ''failed'' \<and>
     run_error_message run = Some ''Browser closed''"
proof -
  let ?new = "map demo_listing [0..<45]"
  from site_failed_run [of "''Browser closed''"] obtain h1 h2 h3 js1 n1 dbs where
    s: "discover_all_jobs_for_company (crashing_site 45 (Some (2, ''Browser closed''))) default_settings
          demo_company [''Backend Engineer''] [] = (Inr ?new, h1)"
       "extract_multiple_jobs (crashing_site 45 (Some (2, ''Browser closed''))) default_settings
          (take 20 ?new) (c_id demo_company) (c_selectors demo_company) 20 h1 = (Inr js1, h2)"
       "add_jobs empty_db js1 0 = (Inr n1, dbs)" "length js1 = 20"
       "extract_multiple_jobs (crashing_site 45 (Some (2, ''Browser closed''))) default_settings
          (take 20 (drop 20 ?new)) (c_id demo_company) (c_selectors demo_company) 20 h2 =
          (Inl (Error ''Browser closed''), h3)"
    by blast
  have n: "?new = new_jobs_of empty_db None ?new"
    by (simp add: new_jobs_of_def apply_limit_def job_exists_empty)
  have l: "length ?new = 45" by simp
  from failed_batch_keeps_saved_jobs [OF s(1) n l s(2) s(3) s(5), of 0 "[]" empty_db "''2026-11-04T09:00:00''"]
  obtain dbf run where
    r: "scrape_company (crashing_site 45 (Some (2, ''Browser closed''))) default_settings
       ''2026-11-04T09:00:00'' demo_company [''Backend Engineer''] None ([], empty_db) = (h3, dbf)"
       "jobs_table dbf = jobs_table dbs"
       "get_scrape_run dbf (Suc (length (scrape_runs empty_db))) = Some run"
       "run_status run = ''failed''"
       "run_error_message run = (if str_exn (Error ''Browser closed'') = [] then None
                                 else Some (str_exn (Error ''Browser closed'')))"
    by blast
  from add_jobs_result [OF s(3)] s(4) have "length (jobs_table dbs) = 20"
    by (simp add: empty_db_def)
  with r show ?thesis by (simp add: empty_db_def)
qed

text \<open>
  The claim as it is written fails when the text of the exception is empty: on the same
  site, with a launch that fails with an exception without text, the run row is failed
  but carries no error message.
\<close>

theorem failed_run_without_message:
  "\<exists>h3 dbf run.
     scrape_company (crashing_site 45 (Some (2, ''''))) default_settings
       ''2026-11-04T09:00:00'' demo_company [''Backend Engineer''] None ([], empty_db) = (h3, dbf) \<and>
     length (jobs_table dbf) = 20 \<and>
     get_scrape_run dbf 1 = Some run \<and> run_status run = ''failed'' \<and>
     run_error_message run = None \<and> run_error_message run \<noteq> Some (str_exn (Error ''''))"
proof -
  let ?new = "map demo_listing [0..<45]"
  from site_failed_run [of "''''"] obtain h1 h2 h3 js1 n1 dbs where
    s: "discover_all_jobs_for_company (crashing_site 45 (Some (2, ''''))) default_settings
          demo_company [''Backend Engineer''] [] = (Inr ?new, h1)"
       "extract_multiple_jobs (crashing_site 45 (Some (2, ''''))) default_settings
          (take 20 ?new) (c_id demo_company) (c_selectors demo_company) 20 h1 = (Inr js1, h2)"
       "add_jobs empty_db js1 0 = (Inr n1, dbs)" "length js1 = 20"
       "extract_multiple_jobs (crashing_site 45 (Some (2, ''''))) default_settings
          (take 20 (drop 20 ?new)) (c_id demo_company) (c_selectors demo_company) 20 h2 =
          (Inl (Error ''''), h3)"
    by blast
  have n: "?new = new_jobs_of empty_db None ?new"
    by (simp add: new_jobs_of_def apply_limit_def job_exists_empty)
  have l: "length ?new = 45" by simp
  from failed_batch_run [OF s(1) n l s(2) s(3) s(5), of "''2026-11-04T09:00:00''"]
  obtain dbf run where
    r: "scrape_company (crashing_site 45 (Some (2, ''''))) default_settings
       ''2026-11-04T09:00:00'' demo_company [''Backend Engineer''] None ([], empty_db) = (h3, dbf)"
       "jobs_table dbf = jobs_table dbs"
       "get_scrape_run dbf (Suc (length (scrape_runs empty_db))) = Some run"
       "run_status run = ''failed''"
       "run_error_message run = (if str_exn (Error '''') = [] then None
                                 else Some (str_exn (Error '''')))"
    by blast
  from add_jobs_result [OF s(3)] s(4) have "length (jobs_table dbs) = 20"
    by (simp add: empty_db_def)
  with r show ?thesis by (simp add: empty_db_def)
qed

subsection \<open>The job limit and what the run sends to extraction\<close>

lemma site_save:
  assumes "0 < m" and "m \<le> 20" and "will_launch cr h" and "jobs_table db = []"
  shows "\<exists>t db'. save_batches (crashing_site n cr) st demo_company (map demo_listing [0..<m]) 20
              (range_starts (length (map demo_listing [0..<m])) 20) 0 (h, db) =
            (Inr m, h @ t, db') \<and>
          detail_visits t = map demo_url [0..<m]"
proof -
  let ?jds = "map demo_listing [0..<m]"
  let ?js = "map (\<lambda>jd. build_job jd 1 demo_fields) ?jds"
  have co: "c_id demo_company = 1" "c_selectors demo_company = demo_selectors"
    by (simp_all add: demo_company_def)
  from assms have r: "range_starts (length ?jds) 20 = [0]"
    by (intro range_starts_single) simp_all
  from assms have b: "batch_at ?jds 20 0 = ?jds" by (simp add: batch_at_def slice_def)
  from assms have ne: "?jds \<noteq> []" "length ?jds \<le> 20" by simp_all
  from site_multiple [OF ne assms(3), of n st 1] obtain t where
    t: "extract_multiple_jobs (crashing_site n cr) st ?jds 1 demo_selectors 20 h = (Inr ?js, h @ t)"
       "detail_visits t = map url ?jds" by blast
  have 1: "distinct (map job_url ?js)"
    by (simp add: distinct_map comp_def demo_job_keys inj_on_def demo_url_inj)
  have 2: "distinct (map job_url_hash ?js)"
    using assms by (simp add: distinct_map comp_def demo_job_keys inj_on_def demo_hash_inj)
  from add_jobs_fresh [OF 1 2, of db 0] assms(4) obtain db' where
    a: "add_jobs db ?js 0 = (Inr m, db')" by auto
  have "save_batches (crashing_site n cr) st demo_company ?jds 20 (range_starts (length ?jds) 20) 0 (h, db) =
      (Inr m, h @ t, db')"
    unfolding r save_batches_step save_batches_end b save_step_def co prod.case t(1) sum.case a
    by simp
  moreover have "detail_visits t = map demo_url [0..<m]"
    by (simp add: t(2) comp_def demo_listing_def)
  ultimately show ?thesis by blast
qed

lemma fresh_run_db_simps:
  "jobs_table fresh_run_db = []"
  "job_exists fresh_run_db x = False"
  by (simp_all add: fresh_run_db_def create_scrape_run_def empty_db_def job_exists_def)

lemma site_scrape_body:
  assumes "new_jobs_of fresh_run_db lim (map demo_listing [0..<12]) = map demo_listing [0..<m]"
    and "0 < m" and "m \<le> 20"
  shows "\<exists>h1 t db2.
     discover_all_jobs_for_company (demo_site 12) default_settings demo_company
       [''Backend Engineer''] [] = (Inr (map demo_listing [0..<12]), h1) \<and>
     scrape_body (demo_site 12) default_settings now demo_company [''Backend Engineer''] lim 1
       ([], fresh_run_db) = (Inr (), h1 @ t, db2) \<and>
     detail_visits t = map demo_url [0..<m]"
proof -
  let ?db1 = "update_scrape_run fresh_run_db now 1 (Some (length (map demo_listing [0..<12]))) None None None"
  have w0: "will_launch None h" for h by (simp add: will_launch_def)
  from site_discover_all [of 12 None "[]" default_settings "[]", OF _ _ w0]
  obtain h1 where
    d: "discover_all_jobs_for_company (demo_site 12) default_settings demo_company
          [''Backend Engineer''] [] = (Inr (map demo_listing [0..<12]), h1)"
    unfolding demo_site_def by auto
  have n: "new_jobs_of ?db1 lim (map demo_listing [0..<12]) = map demo_listing [0..<m]"
    using assms(1) by (simp add: new_jobs_of_def)
  have j: "jobs_table ?db1 = []"
    by (simp add: update_scrape_run_def fresh_run_db_simps)
  from site_save [where h = h1 and n = 12 and st = default_settings, OF assms(2,3) w0 j]
  obtain t db' where
    s: "save_batches (demo_site 12) default_settings demo_company (map demo_listing [0..<m]) 20
              (range_starts (length (map demo_listing [0..<m])) 20) 0 (h1, ?db1) =
            (Inr m, h1 @ t, db')" "detail_visits t = map demo_url [0..<m]"
    unfolding demo_site_def by blast
  from assms(2) have ne: "map demo_listing [0..<m] \<noteq> []" by simp
  have "\<exists>db2. scrape_body (demo_site 12) default_settings now demo_company [''Backend Engineer''] lim 1
       ([], fresh_run_db) = (Inr (), h1 @ t, db2)"
    unfolding scrape_body_def prod.case d sum.case Let_def n using ne
    by (simp only: if_False s(1) prod.case sum.case) blast
  with d s(2) show ?thesis by blast
qed

text \<open>
  Claim C7, as the code has it. For every run with a positive \<open>job_limit\<close> the sequence of
  new listings is cut to its first \<open>job_limit\<close> entries, in discovery order, and these are
  what the run sends to extraction, whatever the batch size. After discovery, the detail
  pages that the body of the run visits are those of the first \<open>job_limit\<close> new listings, in
  discovery order, every listing between one and three times in a row: all of them when
  the run completes, and an initial segment of them when it stops on an exception. The same
  holds of the batch loop for any positive batch size. With the limit 5 and 12 new
  listings these are exactly the first 5. The limit 0 counts as no limit and cuts nothing.
\<close>

theorem job_limit_keeps_first:
  "(0 < k \<longrightarrow>
      new_jobs_of db (Some k) discovered =
        take (nat k) (filter (\<lambda>j. \<not> job_exists db (url_hash j)) discovered) \<and>
      length (new_jobs_of db (Some k) discovered) \<le> nat k \<and>
      (0 < bs \<longrightarrow>
         concat (batches_of (new_jobs_of db (Some k) discovered) bs) =
           take (nat k) (filter (\<lambda>j. \<not> job_exists db (url_hash j)) discovered))) \<and>
   (0 < k \<and> discover_all_jobs_for_company ev st co cats h = (Inr discovered, h1) \<and>
    scrape_body ev st now co cats (Some k) run_id (h, db) = (r, h2, db2) \<longrightarrow>
      (\<exists>t. h2 = h1 @ t \<and>
           visited (\<not> isl r)
             (take (nat k) (filter (\<lambda>j. \<not> job_exists db (url_hash j)) discovered))
             (detail_visits t))) \<and>
   (0 < k \<and> 0 < bs \<and>
    save_batches ev st co (new_jobs_of db (Some k) discovered) bs
      (range_starts (length (new_jobs_of db (Some k) discovered)) bs) saved (h1, db1) =
      (r', h3, db3) \<longrightarrow>
      (\<exists>t. h3 = h1 @ t \<and>
           visited (\<not> isl r')
             (take (nat k) (filter (\<lambda>j. \<not> job_exists db (url_hash j)) discovered))
             (detail_visits t))) \<and>
   (length (new_jobs :: job_discovered list) = 12 \<longrightarrow>
      apply_limit (Some 5) new_jobs = take 5 new_jobs \<and>
      length (apply_limit (Some 5) new_jobs) = 5 \<and>
      (0 < bs \<longrightarrow> concat (batches_of (apply_limit (Some 5) new_jobs) bs) = take 5 new_jobs)) \<and>
   apply_limit (Some 0) new_jobs = new_jobs \<and>
   apply_limit None new_jobs = new_jobs"
proof -
  have 1: "new_jobs_of db (Some k) discovered =
        take (nat k) (filter (\<lambda>j. \<not> job_exists db (url_hash j)) discovered)" if "0 < k"
    by (simp add: new_jobs_of_def apply_limit_pos [OF that])
  have a: "0 < k \<longrightarrow>
      new_jobs_of db (Some k) discovered =
        take (nat k) (filter (\<lambda>j. \<not> job_exists db (url_hash j)) discovered) \<and>
      length (new_jobs_of db (Some k) discovered) \<le> nat k \<and>
      (0 < bs \<longrightarrow>
         concat (batches_of (new_jobs_of db (Some k) discovered) bs) =
           take (nat k) (filter (\<lambda>j. \<not> job_exists db (url_hash j)) discovered))"
    by (simp add: 1 concat_batches)
  have b: "\<exists>t. h2 = h1 @ t \<and>
           visited (\<not> isl r)
             (take (nat k) (filter (\<lambda>j. \<not> job_exists db (url_hash j)) discovered))
             (detail_visits t)"
    if "0 < k \<and> discover_all_jobs_for_company ev st co cats h = (Inr discovered, h1) \<and>
        scrape_body ev st now co cats (Some k) run_id (h, db) = (r, h2, db2)"
  proof -
    from that have k: "0 < k"
      and d: "discover_all_jobs_for_company ev st co cats h = (Inr discovered, h1)"
      and s: "scrape_body ev st now co cats (Some k) run_id (h, db) = (r, h2, db2)" by blast+
    from scrape_body_visits [OF d s] show ?thesis unfolding 1 [OF k] .
  qed
  have c: "\<exists>t. h3 = h1 @ t \<and>
           visited (\<not> isl r')
             (take (nat k) (filter (\<lambda>j. \<not> job_exists db (url_hash j)) discovered))
             (detail_visits t)"
    if "0 < k \<and> 0 < bs \<and>
        save_batches ev st co (new_jobs_of db (Some k) discovered) bs
          (range_starts (length (new_jobs_of db (Some k) discovered)) bs) saved (h1, db1) =
          (r', h3, db3)"
  proof -
    from that have k: "0 < k" and b: "0 < bs"
      and s: "save_batches ev st co (new_jobs_of db (Some k) discovered) bs
          (range_starts (length (new_jobs_of db (Some k) discovered)) bs) saved (h1, db1) =
          (r', h3, db3)" by blast+
    from save_all_visits [OF b s] show ?thesis unfolding 1 [OF k] .
  qed
  have 2: "apply_limit (Some 5) new_jobs = take 5 new_jobs"
    using apply_limit_pos [of 5 new_jobs] by simp
  have d: "length new_jobs = 12 \<longrightarrow>
      apply_limit (Some 5) new_jobs = take 5 new_jobs \<and>
      length (apply_limit (Some 5) new_jobs) = 5 \<and>
      (0 < bs \<longrightarrow> concat (batches_of (apply_limit (Some 5) new_jobs) bs) = take 5 new_jobs)"
    by (simp add: 2 concat_batches)
  have e: "apply_limit (Some 0) new_jobs = new_jobs" "apply_limit None new_jobs = new_jobs"
    by (simp_all add: apply_limit_def)
  from a b c d e show ?thesis by blast
qed

text \<open>
  An example: on the example site with 12 cards and an empty store, the run with the limit
  5 completes and visits the detail pages of the first five listings, once each and in
  order, with the batch size 20 of the driver; and the batches of any other size hold the
  same five listings.
\<close>

theorem job_limit_keeps_first_witness:
  "new_jobs_of fresh_run_db (Some 5) (map demo_listing [0..<12]) = map demo_listing [0..<5] \<and>
   concat (batches_of (new_jobs_of fresh_run_db (Some 5) (map demo_listing [0..<12])) 2) =
     map demo_listing [0..<5] \<and>
   (\<exists>h1 t db2.
      discover_all_jobs_for_company (demo_site 12) default_settings demo_company
        [''Backend Engineer''] [] = (Inr (map demo_listing [0..<12]), h1) \<and>
      scrape_body (demo_site 12) default_settings ''2026-11-04T09:00:00'' demo_company
        [''Backend Engineer''] (Some 5) 1 ([], fresh_run_db) = (Inr (), h1 @ t, db2) \<and>
      detail_visits t = map demo_url [0..<5] \<and>
      visited True (map demo_listing [0..<5]) (detail_visits t))"
proof -
  let ?d = "map demo_listing [0..<12]"
  have f: "filter (\<lambda>j. \<not> job_exists fresh_run_db (url_hash j)) ?d = ?d"
    by (simp add: fresh_run_db_simps)
  have t: "take (nat 5) ?d = map demo_listing [0..<5]"
    by (simp add: take_map)
  have p: "(0::int) < 5" "(0::nat) < 2" by simp_all
  have n: "new_jobs_of fresh_run_db (Some 5) ?d = map demo_listing [0..<5]"
    using apply_limit_pos [of 5 ?d] by (simp add: new_jobs_of_def f take_map)
  from site_scrape_body [OF n, of "''2026-11-04T09:00:00''"] obtain h1 t db2 where
    s: "discover_all_jobs_for_company (demo_site 12) default_settings demo_company
          [''Backend Engineer''] [] = (Inr ?d, h1)"
       "scrape_body (demo_site 12) default_settings ''2026-11-04T09:00:00'' demo_company
          [''Backend Engineer''] (Some 5) 1 ([], fresh_run_db) = (Inr (), h1 @ t, db2)"
       "detail_visits t = map demo_url [0..<5]"
    by auto
  note a = job_limit_keeps_first
    [of 5 fresh_run_db ?d 2 "demo_site 12" default_settings demo_company "[''Backend Engineer'']"
        "[]" h1 "''2026-11-04T09:00:00''" 1 "Inr ()" "h1 @ t" db2 0 fresh_run_db "Inr 0" "[]"
        fresh_run_db "[]", unfolded f t]
  from a p have c1: "new_jobs_of fresh_run_db (Some 5) ?d = map demo_listing [0..<5]" by blast
  from a p have c2: "concat (batches_of (new_jobs_of fresh_run_db (Some 5) ?d) 2) =
      map demo_listing [0..<5]" by blast
  from a p s(1,2) obtain t' where
    "h1 @ t = h1 @ t'" "visited (\<not> isl (Inr () :: exn + unit)) (map demo_listing [0..<5]) (detail_visits t')"
    by blast
  then have c3: "visited True (map demo_listing [0..<5]) (detail_visits t)" by simp
  from c1 c2 s c3 show ?thesis by blast
qed

text \<open>
  The claim as it is written fails for the limit 0: it is set, and all 12 new listings
  go on to extraction. The run on the example site with 12 cards and the limit 0 visits
  the detail pages of all twelve.
\<close>

theorem job_limit_zero_keeps_all:
  "length (new_jobs_of fresh_run_db (Some 0) (map demo_listing [0..<12])) = 12 \<and>
   \<not> length (new_jobs_of fresh_run_db (Some 0) (map demo_listing [0..<12])) \<le> nat 0 \<and>
   (\<exists>h1 t db2.
      discover_all_jobs_for_company (demo_site 12) default_settings demo_company
        [''Backend Engineer''] [] = (Inr (map demo_listing [0..<12]), h1) \<and>
      scrape_body (demo_site 12) default_settings ''2026-11-04T09:00:00'' demo_company
        [''Backend Engineer''] (Some 0) 1 ([], fresh_run_db) = (Inr (), h1 @ t, db2) \<and>
      detail_visits t = map demo_url [0..<12] \<and> length (detail_visits t) = 12)"
proof -
  let ?d = "map demo_listing [0..<12]"
  have n: "new_jobs_of fresh_run_db (Some 0) ?d = map demo_listing [0..<12]"
    by (simp add: new_jobs_of_def apply_limit_def fresh_run_db_simps)
  from site_scrape_body [OF n, of "''2026-11-04T09:00:00''"] obtain h1 t db2 where
    s: "discover_all_jobs_for_company (demo_site 12) default_settings demo_company
          [''Backend Engineer''] [] = (Inr ?d, h1)"
       "scrape_body (demo_site 12) default_settings ''2026-11-04T09:00:00'' demo_company
          [''Backend Engineer''] (Some 0) 1 ([], fresh_run_db) = (Inr (), h1 @ t, db2)"
       "detail_visits t = map demo_url [0..<12]"
    by auto
  from s(3) have l: "length (detail_visits t) = 12" by simp
  have 1: "length (new_jobs_of fresh_run_db (Some 0) ?d) = 12" by (simp add: n)
  from 1 s l show ?thesis by auto
qed

end
